theory Spec2Isabelle
  imports Main "HOL-Library.Word" "HOL-Library.AList" "HOL-Library.Char_ord"
    "HOL-Library.List_Lexorder" "HOL-Library.Sublist"
begin

unbundle bit_operations_syntax

section \<open>Identifier generator (pkg/document/idgen.go)\<close>

text \<open>
  Go strings are byte sequences; they are modelled as \<^typ>\<open>string\<close>, whose characters are
  bytes, so \<^const>\<open>length\<close> is Go's \<open>len\<close> and \<^const>\<open>take\<close> is the slice \<open>s[:n]\<close>.

  Two things used by the generator live outside the repository: the slug library
  (\<open>slug.Make\<close>) and the random source (\<open>crypto/rand\<close>). The slug function is a parameter
  \<open>slug_Make\<close> of the model. The random source is a parameter \<open>rnd\<close>: \<open>rnd k\<close> is the
  outcome of the \<open>k\<close>-th call of \<open>rand.Read\<close> on the three-byte buffer, \<open>None\<close> when the
  call returns an error.
\<close>

type_synonym byte = "8 word"

type_synonym draw = "(byte \<times> byte \<times> byte) option"

definition MaxSlugLength :: nat where
  "MaxSlugLength = 30"

definition SuffixLength :: nat where
  "SuffixLength = 4"

definition hextable :: string where
  "hextable = ''0123456789abcdef''"

text \<open>\<open>hex.EncodeToString\<close>: two lowercase digits per byte, high nibble first.\<close>

definition hex_EncodeToString :: "byte list \<Rightarrow> string" where
  "hex_EncodeToString src =
     concat (map (\<lambda>v. [hextable ! unat (drop_bit 4 v), hextable ! unat (v AND 0x0f)]) src)"

text \<open>\<open>fmt.Sprintf("%04x", n)\<close> for \<open>n < 65536\<close>: four digits, zero padded.\<close>

definition fmt_04x :: "nat \<Rightarrow> string" where
  "fmt_04x n = map (\<lambda>k. hextable ! ((n div 16 ^ k) mod 16)) [3, 2, 1, 0]"

text \<open>
  \<open>generateRandomSuffix\<close>: the buffer has \<open>SuffixLength/2 + 1\<close> bytes; when \<open>rand.Read\<close>
  fails the suffix is the buffer length printed with \<open>%04x\<close>, otherwise the first
  \<open>SuffixLength\<close> characters of the hex encoding of the buffer.
\<close>

definition generateRandomSuffix :: "draw \<Rightarrow> string" where
  "generateRandomSuffix d =
     (case d of
        None \<Rightarrow> fmt_04x (SuffixLength div 2 + 1)
      | Some (b0, b1, b2) \<Rightarrow> take SuffixLength (hex_EncodeToString [b0, b1, b2]))"

text \<open>
  The loop \<open>for i := 0; i < 100; i++\<close> of \<open>GenerateDocumentID\<close>, entered at \<open>i\<close>, followed
  by the fallback after the loop. Attempt \<open>i\<close> consumes draw \<open>i\<close>; the fallback consumes
  draws \<open>100\<close> and \<open>101\<close>.
\<close>

function unique_loop :: "string \<Rightarrow> (string \<Rightarrow> bool) \<Rightarrow> (nat \<Rightarrow> draw) \<Rightarrow> nat \<Rightarrow> string" where
  "unique_loop slugified existsFunc rnd i =
     (if i < 100 then
        (let suffix = generateRandomSuffix (rnd i);
             ident = slugified @ ''-'' @ suffix
         in if \<not> existsFunc ident then ident
            else unique_loop slugified existsFunc rnd (Suc i))
      else
        (let longSuffix = generateRandomSuffix (rnd 100) @ generateRandomSuffix (rnd 101)
         in slugified @ ''-'' @ longSuffix))"
  by pat_completeness auto
termination
  by (relation "measure (\<lambda>(s, e, r, i). 100 - i)") auto

declare unique_loop.simps [simp del]

definition slug_portion :: "(string \<Rightarrow> string) \<Rightarrow> string \<Rightarrow> string" where
  "slug_portion slug_Make name =
     (let slugified = slug_Make name;
          slugified = (if length slugified > MaxSlugLength
                       then take MaxSlugLength slugified else slugified)
      in if slugified = [] then ''document'' else slugified)"

definition GenerateDocumentID ::
  "(string \<Rightarrow> string) \<Rightarrow> string \<Rightarrow> (string \<Rightarrow> bool) \<Rightarrow> (nat \<Rightarrow> draw) \<Rightarrow> string" where
  "GenerateDocumentID slug_Make name existsFunc rnd =
     unique_loop (slug_portion slug_Make name) existsFunc rnd 0"

definition ValidateDocumentID :: "string \<Rightarrow> bool" where
  "ValidateDocumentID ident =
     (if ident = [] then False
      else if CHR ''-'' \<notin> set ident then False
      else if length ident > MaxSlugLength + SuffixLength + 1 then False
      else True)"

text \<open>The candidate identifier of attempt \<open>i\<close>.\<close>

definition candidate :: "string \<Rightarrow> (nat \<Rightarrow> draw) \<Rightarrow> nat \<Rightarrow> string" where
  "candidate slugified rnd i = slugified @ ''-'' @ generateRandomSuffix (rnd i)"

text \<open>
  Stand-ins for closed evaluations. \<open>slug_unchanged\<close> is the slug function on names that
  are already slugs (lowercase ASCII letters, digits and inner hyphens), which a slug
  function returns as they are. \<open>rand_unavailable\<close> is a random source whose every read fails;
  \<open>rand_const\<close> one whose every read yields the same three bytes.
\<close>

definition slug_unchanged :: "string \<Rightarrow> string" where
  "slug_unchanged name = name"

definition rand_unavailable :: "nat \<Rightarrow> draw" where
  "rand_unavailable k = None"

definition rand_const :: "byte \<Rightarrow> byte \<Rightarrow> byte \<Rightarrow> nat \<Rightarrow> draw" where
  "rand_const b0 b1 b2 k = Some (b0, b1, b2)"

definition every_id_taken :: "string \<Rightarrow> bool" where
  "every_id_taken ident = True"

definition no_id_taken :: "string \<Rightarrow> bool" where
  "no_id_taken ident = False"

subsection \<open>Suffixes\<close>

lemma high_nibble_bound: "unat (drop_bit 4 (v::byte)) < 16"
proof -
  have "unat v < 256"
    using unsigned_less [of v, where 'a = nat] by simp
  moreover have "unat (drop_bit 4 v) = unat v div 16"
    by (simp add: drop_bit_eq_div unat_div)
  ultimately show ?thesis by simp
qed

lemma low_nibble_bound: "unat ((v::byte) AND 0x0f) < 16"
proof -
  have "v AND 0x0f \<le> 0x0f" by (rule word_and_le1)
  then have "unat (v AND 0x0f) \<le> unat (0x0f :: byte)"
    by (simp add: word_le_nat_alt)
  then show ?thesis by simp
qed

lemma hextable_nth: "k < 16 \<Longrightarrow> hextable ! k \<in> set hextable"
  by (rule nth_mem) (simp add: hextable_def)

lemma hex_EncodeToString_length: "length (hex_EncodeToString src) = 2 * length src"
  by (induction src) (simp_all add: hex_EncodeToString_def)

lemma hex_EncodeToString_chars: "set (hex_EncodeToString src) \<subseteq> set hextable"
  by (induction src)
    (simp_all add: hex_EncodeToString_def hextable_nth high_nibble_bound low_nibble_bound)

lemma suffix_length: "length (generateRandomSuffix d) = 4"
  by (cases d)
    (auto simp: generateRandomSuffix_def fmt_04x_def SuffixLength_def hex_EncodeToString_length)

lemma suffix_chars: "set (generateRandomSuffix d) \<subseteq> set hextable"
proof (cases d)
  case None
  then show ?thesis
    by (simp add: generateRandomSuffix_def fmt_04x_def SuffixLength_def hextable_nth)
next
  case (Some t)
  obtain b0 b1 b2 where "t = (b0, b1, b2)" by (cases t)
  with Some show ?thesis
    using set_take_subset [of SuffixLength "hex_EncodeToString [b0, b1, b2]"]
      hex_EncodeToString_chars [of "[b0, b1, b2]"]
    by (simp add: generateRandomSuffix_def)
qed

subsection \<open>The retry loop\<close>

lemma unique_loop_fallback:
  "(\<And>j. i \<le> j \<Longrightarrow> j < 100 \<Longrightarrow> existsFunc (candidate s rnd j)) \<Longrightarrow>
   unique_loop s existsFunc rnd i
     = s @ ''-'' @ generateRandomSuffix (rnd 100) @ generateRandomSuffix (rnd 101)"
proof (induction s existsFunc rnd i rule: unique_loop.induct)
  case (1 s existsFunc rnd i)
  show ?case
  proof (cases "i < 100")
    case True
    have taken: "existsFunc (s @ ''-'' @ generateRandomSuffix (rnd i))"
      using "1.prems" [of i] True by (simp add: candidate_def)
    have "unique_loop s existsFunc rnd (Suc i)
            = s @ ''-'' @ generateRandomSuffix (rnd 100) @ generateRandomSuffix (rnd 101)"
      using True taken "1.prems" by (intro "1.IH") auto
    with True taken show ?thesis
      by (subst unique_loop.simps) (simp add: Let_def)
  next
    case False
    then show ?thesis
      by (subst unique_loop.simps) (simp add: Let_def)
  qed
qed

lemma unique_loop_first_free:
  "i \<le> k \<Longrightarrow> k < 100 \<Longrightarrow> \<not> existsFunc (candidate s rnd k) \<Longrightarrow>
   (\<And>j. i \<le> j \<Longrightarrow> j < k \<Longrightarrow> existsFunc (candidate s rnd j)) \<Longrightarrow>
   unique_loop s existsFunc rnd i = candidate s rnd k"
proof (induction s existsFunc rnd i rule: unique_loop.induct)
  case (1 s existsFunc rnd i)
  have lt: "i < 100" using "1.prems" by simp
  show ?case
  proof (cases "i = k")
    case True
    with lt "1.prems" show ?thesis
      by (subst unique_loop.simps) (simp add: Let_def candidate_def)
  next
    case False
    then have less: "i < k" using "1.prems" by simp
    have taken: "existsFunc (s @ ''-'' @ generateRandomSuffix (rnd i))"
      using "1.prems"(4) [of i] less by (simp add: candidate_def)
    have "unique_loop s existsFunc rnd (Suc i) = candidate s rnd k"
      using lt taken less "1.prems" by (intro "1.IH") auto
    with lt taken show ?thesis
      by (subst unique_loop.simps) (simp add: Let_def)
  qed
qed

lemma unique_loop_free:
  assumes "\<exists>k<100. \<not> existsFunc (candidate s rnd k)"
  shows "\<exists>k<100. unique_loop s existsFunc rnd 0 = candidate s rnd k
             \<and> \<not> existsFunc (candidate s rnd k)"
proof -
  define k where "k = (LEAST k. k < 100 \<and> \<not> existsFunc (candidate s rnd k))"
  from assms obtain k0 where k0: "k0 < 100 \<and> \<not> existsFunc (candidate s rnd k0)" by blast
  have kP: "k < 100 \<and> \<not> existsFunc (candidate s rnd k)"
    unfolding k_def by (rule LeastI [of _ k0]) (rule k0)
  have least: "\<And>j. j < k \<Longrightarrow> existsFunc (candidate s rnd j)"
  proof -
    fix j assume "j < k"
    then have "\<not> (j < 100 \<and> \<not> existsFunc (candidate s rnd j))"
      unfolding k_def by (rule not_less_Least)
    moreover have "j < 100" using \<open>j < k\<close> kP by simp
    ultimately show "existsFunc (candidate s rnd j)" by simp
  qed
  have "unique_loop s existsFunc rnd 0 = candidate s rnd k"
    using kP least by (intro unique_loop_first_free) auto
  with kP show ?thesis by blast
qed

lemma slug_portion_length: "length (slug_portion slug_Make name) \<le> 30"
  by (simp add: slug_portion_def Let_def MaxSlugLength_def)

lemma slug_portion_nonempty: "slug_portion slug_Make name \<noteq> []"
  by (simp add: slug_portion_def Let_def)

lemma slug_portion_eq:
  "slug_portion slug_Make name
     = (if take 30 (slug_Make name) = [] then ''document'' else take 30 (slug_Make name))"
  by (simp add: slug_portion_def Let_def MaxSlugLength_def)


subsection \<open>The form of a generated identifier\<close>

lemma GenerateDocumentID_cases:
  "(\<exists>k<100. GenerateDocumentID slug_Make name existsFunc rnd
                = candidate (slug_portion slug_Make name) rnd k
            \<and> \<not> existsFunc (candidate (slug_portion slug_Make name) rnd k))
   \<or> ((\<forall>k<100. existsFunc (candidate (slug_portion slug_Make name) rnd k))
      \<and> GenerateDocumentID slug_Make name existsFunc rnd
          = slug_portion slug_Make name @ ''-''
              @ generateRandomSuffix (rnd 100) @ generateRandomSuffix (rnd 101))"
proof (cases "\<exists>k<100. \<not> existsFunc (candidate (slug_portion slug_Make name) rnd k)")
  case True
  then show ?thesis
    using unique_loop_free [of existsFunc "slug_portion slug_Make name" rnd]
    by (simp add: GenerateDocumentID_def)
next
  case False
  then have all: "\<forall>k<100. existsFunc (candidate (slug_portion slug_Make name) rnd k)"
    by blast
  then have "unique_loop (slug_portion slug_Make name) existsFunc rnd 0
      = slug_portion slug_Make name @ ''-''
          @ generateRandomSuffix (rnd 100) @ generateRandomSuffix (rnd 101)"
    by (intro unique_loop_fallback) simp
  with all show ?thesis
    by (simp add: GenerateDocumentID_def)
qed

text \<open>
  C5 (amended). For every name, the generated identifier is \<open>slug-suffix\<close>: the slug is the
  normalised name cut to its first 30 characters, or the literal \<open>document\<close> when that is
  empty, and the suffix consists of lowercase hexadecimal characters. The suffix has 4
  characters when one of the 100 attempts produces an identifier that does not exist yet,
  and 8 characters (two draws) when all 100 candidates exist. A normalised name longer than
  30 characters gives a slug portion of exactly 30 characters.
\<close>

theorem generated_id_form:
  "\<exists>suffix.
     GenerateDocumentID slug_Make name existsFunc rnd
       = (if take 30 (slug_Make name) = [] then ''document'' else take 30 (slug_Make name))
           @ ''-'' @ suffix
     \<and> set suffix \<subseteq> set ''0123456789abcdef''
     \<and> ((\<exists>k<100. \<not> existsFunc (candidate (slug_portion slug_Make name) rnd k))
          \<longrightarrow> length suffix = 4)
     \<and> ((\<forall>k<100. existsFunc (candidate (slug_portion slug_Make name) rnd k))
          \<longrightarrow> length suffix = 8)
     \<and> (30 < length (slug_Make name)
          \<longrightarrow> GenerateDocumentID slug_Make name existsFunc rnd
                = take 30 (slug_Make name) @ ''-'' @ suffix
              \<and> length (take 30 (slug_Make name)) = 30)"
proof -
  let ?s = "slug_portion slug_Make name"
  have long: "30 < length (slug_Make name) \<Longrightarrow> take 30 (slug_Make name) \<noteq> []"
    by (cases "slug_Make name") auto
  from GenerateDocumentID_cases [of slug_Make name existsFunc rnd]
  show ?thesis
  proof (elim disjE exE conjE)
    fix k
    assume k: "k < 100"
      and eq: "GenerateDocumentID slug_Make name existsFunc rnd = candidate ?s rnd k"
      and free: "\<not> existsFunc (candidate ?s rnd k)"
    have "GenerateDocumentID slug_Make name existsFunc rnd
            = ?s @ ''-'' @ generateRandomSuffix (rnd k)"
      using eq by (simp add: candidate_def)
    moreover have "set (generateRandomSuffix (rnd k)) \<subseteq> set ''0123456789abcdef''"
      using suffix_chars [of "rnd k"] by (simp add: hextable_def)
    moreover have "\<not> (\<forall>k<100. existsFunc (candidate ?s rnd k))"
      using k free by blast
    ultimately show ?thesis
      using long by (intro exI [of _ "generateRandomSuffix (rnd k)"])
        (simp add: slug_portion_eq suffix_length)
  next
    assume all: "\<forall>k<100. existsFunc (candidate ?s rnd k)"
      and eq: "GenerateDocumentID slug_Make name existsFunc rnd
                 = ?s @ ''-'' @ generateRandomSuffix (rnd 100) @ generateRandomSuffix (rnd 101)"
    let ?l = "generateRandomSuffix (rnd 100) @ generateRandomSuffix (rnd 101)"
    have "set ?l \<subseteq> set ''0123456789abcdef''"
      using suffix_chars [of "rnd 100"] suffix_chars [of "rnd 101"] by (simp add: hextable_def)
    moreover have "length ?l = 8"
      by (simp add: suffix_length)
    moreover have "\<not> (\<exists>k<100. \<not> existsFunc (candidate ?s rnd k))"
      using all by blast
    ultimately show ?thesis
      using eq long by (intro exI [of _ ?l]) (simp add: slug_portion_eq)
  qed
qed

theorem generated_id_form_witness:
  "(\<exists>k<100. \<not> no_id_taken
       (candidate (slug_portion slug_unchanged ''quarterly-sales-report-for-the-board'')
          (rand_const 0xa3 0xf9 0x10) k))
   \<and> 30 < length (slug_unchanged ''quarterly-sales-report-for-the-board'')
   \<and> (\<exists>suffix.
        GenerateDocumentID slug_unchanged ''quarterly-sales-report-for-the-board''
            no_id_taken (rand_const 0xa3 0xf9 0x10)
          = ''quarterly-sales-report-for-the'' @ ''-'' @ suffix
        \<and> length suffix = 4 \<and> set suffix \<subseteq> set ''0123456789abcdef'')
   \<and> \<not> (\<exists>k<100. \<not> every_id_taken (candidate (slug_portion slug_unchanged ''a'') rand_unavailable k))
   \<and> (\<exists>suffix.
        GenerateDocumentID slug_unchanged ''a'' every_id_taken rand_unavailable
          = ''a'' @ ''-'' @ suffix
        \<and> length suffix = 8 \<and> set suffix \<subseteq> set ''0123456789abcdef'')"
proof -
  have free: "\<exists>k<100. \<not> no_id_taken
       (candidate (slug_portion slug_unchanged ''quarterly-sales-report-for-the-board'')
          (rand_const 0xa3 0xf9 0x10) k)"
    by (rule exI [of _ 0]) (simp add: no_id_taken_def)
  have taken: "\<forall>k<100. every_id_taken (candidate (slug_portion slug_unchanged ''a'') rand_unavailable k)"
    by (simp add: every_id_taken_def)
  have len: "30 < length (slug_unchanged ''quarterly-sales-report-for-the-board'')"
    by (simp add: slug_unchanged_def)
  from generated_id_form [of slug_unchanged "''quarterly-sales-report-for-the-board''"
      no_id_taken "rand_const 0xa3 0xf9 0x10"] free len
  obtain s1 where s1:
    "GenerateDocumentID slug_unchanged ''quarterly-sales-report-for-the-board''
        no_id_taken (rand_const 0xa3 0xf9 0x10)
      = take 30 (slug_unchanged ''quarterly-sales-report-for-the-board'') @ ''-'' @ s1"
    "length s1 = 4" "set s1 \<subseteq> set ''0123456789abcdef''"
    by blast
  from generated_id_form [of slug_unchanged "''a''" every_id_taken rand_unavailable] taken
  obtain s2 where s2:
    "GenerateDocumentID slug_unchanged ''a'' every_id_taken rand_unavailable
      = (if take 30 (slug_unchanged ''a'') = [] then ''document''
         else take 30 (slug_unchanged ''a'')) @ ''-'' @ s2"
    "length s2 = 8" "set s2 \<subseteq> set ''0123456789abcdef''"
    by blast
  have "\<exists>suffix.
        GenerateDocumentID slug_unchanged ''quarterly-sales-report-for-the-board''
            no_id_taken (rand_const 0xa3 0xf9 0x10)
          = ''quarterly-sales-report-for-the'' @ ''-'' @ suffix
        \<and> length suffix = 4 \<and> set suffix \<subseteq> set ''0123456789abcdef''"
    using s1 by (intro exI [of _ s1]) (simp add: slug_unchanged_def)
  moreover have "\<exists>suffix.
        GenerateDocumentID slug_unchanged ''a'' every_id_taken rand_unavailable
          = ''a'' @ ''-'' @ suffix
        \<and> length suffix = 8 \<and> set suffix \<subseteq> set ''0123456789abcdef''"
    using s2 by (intro exI [of _ s2]) (simp add: slug_unchanged_def)
  moreover have "\<not> (\<exists>k<100. \<not> every_id_taken
      (candidate (slug_portion slug_unchanged ''a'') rand_unavailable k))"
    using taken by blast
  ultimately show ?thesis
    using free len by blast
qed

text \<open>
  The claim as first stated (a suffix of 4 characters for every name) fails when every
  candidate exists: the identifier then carries 8 characters after the slug.
\<close>

theorem suffix_four_counterexample:
  "GenerateDocumentID slug_unchanged ''a'' every_id_taken rand_unavailable = ''a-00030003''
   \<and> \<not> (\<exists>suffix. length suffix = 4
          \<and> GenerateDocumentID slug_unchanged ''a'' every_id_taken rand_unavailable
              = ''a'' @ ''-'' @ suffix)"
proof -
  have "\<And>j. every_id_taken (candidate (slug_portion slug_unchanged ''a'') rand_unavailable j)"
    by (simp add: every_id_taken_def)
  then have "unique_loop (slug_portion slug_unchanged ''a'') every_id_taken rand_unavailable 0
      = slug_portion slug_unchanged ''a'' @ ''-''
          @ generateRandomSuffix (rand_unavailable 100)
          @ generateRandomSuffix (rand_unavailable 101)"
    by (intro unique_loop_fallback)
  then have "GenerateDocumentID slug_unchanged ''a'' every_id_taken rand_unavailable
      = ''a-00030003''"
    by (simp add: GenerateDocumentID_def slug_portion_def slug_unchanged_def Let_def
        MaxSlugLength_def rand_unavailable_def generateRandomSuffix_def fmt_04x_def
        SuffixLength_def hextable_def)
  then show ?thesis by auto
qed

section \<open>Paths (path/filepath on a Unix host)\<close>

fun split_path :: "string \<Rightarrow> string list" where
  "split_path [] = [[]]"
| "split_path (c # cs) =
     (if c = CHR ''/'' then [] # split_path cs
      else (case split_path cs of [] \<Rightarrow> [[c]] | x # xs \<Rightarrow> (c # x) # xs))"

fun join_sep :: "string list \<Rightarrow> string" where
  "join_sep [] = []"
| "join_sep [x] = x"
| "join_sep (x # y # ys) = x @ ''/'' @ join_sep (y # ys)"

definition clean_step :: "bool \<Rightarrow> string list \<Rightarrow> string \<Rightarrow> string list" where
  "clean_step rooted out c =
     (if c = [] \<or> c = ''.'' then out
      else if c = ''..'' then
        (if out \<noteq> [] \<and> last out \<noteq> ''..'' then butlast out
         else if rooted then out
         else out @ [''..''])
      else out @ [c])"

definition is_rooted :: "string \<Rightarrow> bool" where
  "is_rooted p = (p \<noteq> [] \<and> hd p = CHR ''/'')"

definition filepath_Clean :: "string \<Rightarrow> string" where
  "filepath_Clean p =
     (if p = [] then ''.''
      else
        (let out = foldl (clean_step (is_rooted p)) [] (split_path p)
         in if is_rooted p then ''/'' @ join_sep out
            else if out = [] then ''.''
            else join_sep out))"

definition filepath_Join :: "string list \<Rightarrow> string" where
  "filepath_Join elem =
     (case dropWhile (\<lambda>e. e = []) elem of
        [] \<Rightarrow> []
      | es \<Rightarrow> filepath_Clean (join_sep es))"

definition filepath_Base :: "string \<Rightarrow> string" where
  "filepath_Base p =
     (if p = [] then ''.''
      else
        (let stripped = rev (dropWhile (\<lambda>c. c = CHR ''/'') (rev p));
             last_elem = rev (takeWhile (\<lambda>c. c \<noteq> CHR ''/'') (rev stripped))
         in if last_elem = [] then ''/'' else last_elem))"

definition filepath_Dir :: "string \<Rightarrow> string" where
  "filepath_Dir p = filepath_Clean (rev (dropWhile (\<lambda>c. c \<noteq> CHR ''/'') (rev p)))"


section \<open>Filesystem\<close>

datatype node = File string | Dir "(string \<times> node) list"

datatype os_error = ENOENT | ENOTDIR | EISDIR | EINVAL | EBUSY | ENOTEMPTY

record filesys =
  tree :: node
  cwd :: "string list"

primrec lookup :: "string list \<Rightarrow> node \<Rightarrow> node option" where
  "lookup [] n = Some n"
| "lookup (c # cs) n =
     (case n of
        File d \<Rightarrow> None
      | Dir es \<Rightarrow> (case map_of es c of None \<Rightarrow> None | Some m \<Rightarrow> lookup cs m))"

primrec put :: "string list \<Rightarrow> node \<Rightarrow> node \<Rightarrow> node" where
  "put [] v n = v"
| "put (c # cs) v n =
     (case n of
        File d \<Rightarrow> File d
      | Dir es \<Rightarrow>
          (case map_of es c of
             None \<Rightarrow> (if cs = [] then Dir (AList.update c v es) else Dir es)
           | Some m \<Rightarrow> Dir (AList.update c (put cs v m) es)))"

primrec remove :: "string list \<Rightarrow> node \<Rightarrow> node" where
  "remove [] n = n"
| "remove (c # cs) n =
     (case n of
        File d \<Rightarrow> File d
      | Dir es \<Rightarrow>
          (if cs = [] then Dir (AList.delete c es)
           else (case map_of es c of
                   None \<Rightarrow> Dir es
                 | Some m \<Rightarrow> Dir (AList.update c (remove cs m) es))))"

datatype kind = IsFile string | IsDir

primrec kind_of :: "node \<Rightarrow> kind" where
  "kind_of (File d) = IsFile d"
| "kind_of (Dir es) = IsDir"

definition stat :: "node \<Rightarrow> string list \<Rightarrow> kind option" where
  "stat t p = map_option kind_of (lookup p t)"

fun walk :: "node \<Rightarrow> string list \<Rightarrow> string list \<Rightarrow> os_error + string list" where
  "walk t cur [] = Inr cur"
| "walk t cur (c # cs) =
     (case stat t cur of
        None \<Rightarrow> Inl ENOENT
      | Some (IsFile d) \<Rightarrow> Inl ENOTDIR
      | Some IsDir \<Rightarrow>
          (if c = [] \<or> c = ''.'' then walk t cur cs
           else if c = ''..'' then walk t (butlast cur) cs
           else walk t (cur @ [c]) cs))"

definition start_dir :: "filesys \<Rightarrow> string \<Rightarrow> string list" where
  "start_dir fs p = (if is_rooted p then [] else cwd fs)"

definition resolve :: "filesys \<Rightarrow> string \<Rightarrow> os_error + string list" where
  "resolve fs p = (if p = [] then Inl ENOENT else walk (tree fs) (start_dir fs p) (split_path p))"


text \<open>The primitives of package \<open>os\<close> used by the repository.\<close>

definition os_Stat :: "filesys \<Rightarrow> string \<Rightarrow> os_error + kind" where
  "os_Stat fs p =
     (case resolve fs p of
        Inl e \<Rightarrow> Inl e
      | Inr a \<Rightarrow> (case stat (tree fs) a of None \<Rightarrow> Inl ENOENT | Some k \<Rightarrow> Inr k))"

definition os_ReadFile :: "filesys \<Rightarrow> string \<Rightarrow> os_error + string" where
  "os_ReadFile fs p =
     (case resolve fs p of
        Inl e \<Rightarrow> Inl e
      | Inr a \<Rightarrow>
          (case stat (tree fs) a of
             None \<Rightarrow> Inl ENOENT
           | Some IsDir \<Rightarrow> Inl EISDIR
           | Some (IsFile d) \<Rightarrow> Inr d))"

definition os_WriteFile :: "filesys \<Rightarrow> string \<Rightarrow> string \<Rightarrow> os_error + filesys" where
  "os_WriteFile fs p content =
     (case resolve fs p of
        Inl e \<Rightarrow> Inl e
      | Inr a \<Rightarrow>
          (case stat (tree fs) a of
             Some IsDir \<Rightarrow> Inl EISDIR
           | _ \<Rightarrow> Inr (fs\<lparr>tree := put a (File content) (tree fs)\<rparr>)))"

fun mkdir_walk :: "node \<Rightarrow> string list \<Rightarrow> string list \<Rightarrow> os_error option \<times> node" where
  "mkdir_walk t cur [] = (None, t)"
| "mkdir_walk t cur (c # cs) =
     (case stat t cur of
        None \<Rightarrow> (Some ENOENT, t)
      | Some (IsFile d) \<Rightarrow> (Some ENOTDIR, t)
      | Some IsDir \<Rightarrow>
          (if c = [] \<or> c = ''.'' then mkdir_walk t cur cs
           else if c = ''..'' then mkdir_walk t (butlast cur) cs
           else
             (case stat t (cur @ [c]) of
                None \<Rightarrow> mkdir_walk (put (cur @ [c]) (Dir []) t) (cur @ [c]) cs
              | Some IsDir \<Rightarrow> mkdir_walk t (cur @ [c]) cs
              | Some (IsFile d) \<Rightarrow> (Some ENOTDIR, t))))"

definition os_MkdirAll :: "filesys \<Rightarrow> string \<Rightarrow> os_error option \<times> filesys" where
  "os_MkdirAll fs p =
     (if p = [] then (Some ENOENT, fs)
      else
        (case mkdir_walk (tree fs) (start_dir fs p) (split_path p) of
           (r, t') \<Rightarrow> (r, fs\<lparr>tree := t'\<rparr>)))"

definition plain :: "string \<Rightarrow> bool" where
  "plain c = (c \<noteq> [] \<and> c \<noteq> ''.'' \<and> c \<noteq> ''..'' \<and> CHR ''/'' \<notin> set c)"

definition os_ReadDir :: "filesys \<Rightarrow> string \<Rightarrow> os_error + (string \<times> bool) list" where
  "os_ReadDir fs p =
     (case resolve fs p of
        Inl e \<Rightarrow> Inl e
      | Inr a \<Rightarrow>
          (case lookup a (tree fs) of
             None \<Rightarrow> Inl ENOENT
           | Some (File d) \<Rightarrow> Inl ENOTDIR
           | Some (Dir es) \<Rightarrow>
               Inr (map (\<lambda>n. (n, stat (tree fs) (a @ [n]) = Some IsDir))
                      (sort (remdups (filter plain (map fst es)))))))"

definition os_Open :: "filesys \<Rightarrow> string \<Rightarrow> os_error + string list" where
  "os_Open fs p =
     (case resolve fs p of
        Inl e \<Rightarrow> Inl e
      | Inr a \<Rightarrow> (case stat (tree fs) a of None \<Rightarrow> Inl ENOENT | Some k \<Rightarrow> Inr a))"

definition os_Create :: "filesys \<Rightarrow> string \<Rightarrow> os_error + (string list \<times> filesys)" where
  "os_Create fs p =
     (case resolve fs p of
        Inl e \<Rightarrow> Inl e
      | Inr a \<Rightarrow>
          (case stat (tree fs) a of
             Some IsDir \<Rightarrow> Inl EISDIR
           | _ \<Rightarrow> Inr (a, fs\<lparr>tree := put a (File []) (tree fs)\<rparr>)))"

definition io_Copy :: "filesys \<Rightarrow> string list \<Rightarrow> string list \<Rightarrow> os_error + filesys" where
  "io_Copy fs dst src =
     (case stat (tree fs) src of
        None \<Rightarrow> Inl ENOENT
      | Some IsDir \<Rightarrow> Inl EISDIR
      | Some (IsFile d) \<Rightarrow> Inr (fs\<lparr>tree := put dst (File d) (tree fs)\<rparr>))"

definition endsWithDot :: "string \<Rightarrow> bool" where
  "endsWithDot p =
     (p = ''.'' \<or> (length p \<ge> 2 \<and> last p = CHR ''.'' \<and> last (butlast p) = CHR ''/''))"

definition os_RemoveAll :: "filesys \<Rightarrow> string \<Rightarrow> os_error option \<times> filesys" where
  "os_RemoveAll fs p =
     (if p = [] then (None, fs)
      else if endsWithDot p then (Some EINVAL, fs)
      else
        (case resolve fs p of
           Inl ENOENT \<Rightarrow> (None, fs)
         | Inl e \<Rightarrow> (Some e, fs)
         | Inr a \<Rightarrow>
             (if a = [] then (Some EBUSY, fs\<lparr>tree := Dir []\<rparr>)
              else (None, fs\<lparr>tree := remove a (tree fs)\<rparr>))))"

definition os_Remove :: "filesys \<Rightarrow> string \<Rightarrow> os_error option \<times> filesys" where
  "os_Remove fs p =
     (case resolve fs p of
        Inl e \<Rightarrow> (Some e, fs)
      | Inr a \<Rightarrow>
          (case lookup a (tree fs) of
             None \<Rightarrow> (Some ENOENT, fs)
           | Some (File d) \<Rightarrow> (None, fs\<lparr>tree := remove a (tree fs)\<rparr>)
           | Some (Dir es) \<Rightarrow>
               (if a = [] then (Some EBUSY, fs)
                else if es = [] then (None, fs\<lparr>tree := remove a (tree fs)\<rparr>)
                else (Some ENOTEMPTY, fs))))"

lemma lookup_append: "lookup (p @ q) t = (case lookup p t of None \<Rightarrow> None | Some n \<Rightarrow> lookup q n)"
  by (induction p arbitrary: t) (auto split: node.splits option.splits)

lemma stat_parent_dir: "stat t (p @ [c]) \<noteq> None \<Longrightarrow> stat t p = Some IsDir"
  by (auto simp: stat_def lookup_append split: option.splits node.splits)


lemma kind_of_dir: "kind_of n = IsDir \<longleftrightarrow> (\<exists>es. n = Dir es)"
  by (cases n) simp_all

lemma kind_of_file: "kind_of n = IsFile d \<longleftrightarrow> n = File d"
  by (cases n) simp_all

lemma stat_dir_iff: "stat t p = Some IsDir \<longleftrightarrow> (\<exists>es. lookup p t = Some (Dir es))"
  by (cases "lookup p t") (simp_all add: stat_def kind_of_dir)

lemma stat_file_iff: "stat t p = Some (IsFile d) \<longleftrightarrow> lookup p t = Some (File d)"
  by (cases "lookup p t") (simp_all add: stat_def kind_of_file)

lemma stat_none_iff: "stat t p = None \<longleftrightarrow> lookup p t = None"
  by (simp add: stat_def)

lemma lookup_put_same:
  "lookup p t = Some (Dir es) \<Longrightarrow> lookup (p @ [c]) (put (p @ [c]) v t) = Some v"
proof (induction p arbitrary: t)
  case Nil
  then show ?case
    by (auto simp: update_conv' split: option.splits)
next
  case (Cons a p)
  then show ?case
    by (auto simp: update_conv' split: node.splits option.splits)
qed

lemma lookup_put_below:
  "lookup p t = Some (Dir es) \<Longrightarrow> lookup (p @ c # q) (put (p @ [c]) v t) = lookup q v"
  using lookup_put_same [of p t es c v] lookup_append [of "p @ [c]" q "put (p @ [c]) v t"]
  by simp

lemma stat_put_other:
  "\<not> prefix (p @ [c]) q \<Longrightarrow> stat (put (p @ [c]) v t) q = stat t q"
proof (induction p arbitrary: t q)
  case Nil
  then show ?case
    by (cases q) (auto simp: stat_def update_conv' split: node.splits option.splits)
next
  case (Cons a p)
  show ?case
  proof (cases q)
    case Nil
    then show ?thesis
      by (auto simp: stat_def split: node.splits option.splits)
  next
    case q: (Cons b q')
    show ?thesis
    proof (cases "b = a")
      case True
      with Cons.prems q have "\<not> prefix (p @ [c]) q'" by auto
      from Cons.IH [OF this] True q show ?thesis
        by (auto simp: stat_def update_conv' split: node.splits option.splits)
    next
      case False
      with q show ?thesis
        by (auto simp: stat_def update_conv' split: node.splits option.splits)
    qed
  qed
qed

lemma stat_remove_other:
  "\<not> prefix (p @ [c]) q \<Longrightarrow> stat (remove (p @ [c]) t) q = stat t q"
proof (induction p arbitrary: t q)
  case Nil
  then show ?case
    by (cases q) (auto simp: stat_def delete_conv' split: node.splits option.splits)
next
  case (Cons a p)
  show ?case
  proof (cases q)
    case Nil
    then show ?thesis
      by (auto simp: stat_def split: node.splits option.splits)
  next
    case q: (Cons b q')
    show ?thesis
    proof (cases "b = a")
      case True
      with Cons.prems q have "\<not> prefix (p @ [c]) q'" by auto
      from Cons.IH [OF this] True q show ?thesis
        by (auto simp: stat_def update_conv' split: node.splits option.splits)
    next
      case False
      with q show ?thesis
        by (auto simp: stat_def update_conv' split: node.splits option.splits)
    qed
  qed
qed

lemma lookup_remove_same: "lookup (p @ [c]) (remove (p @ [c]) t) = None"
proof (induction p arbitrary: t)
  case Nil
  then show ?case
    by (auto simp: delete_conv' split: node.splits option.splits)
next
  case (Cons a p)
  then show ?case
    by (auto simp: update_conv' split: node.splits option.splits)
qed

lemma stat_remove_below: "prefix (p @ [c]) q \<Longrightarrow> stat (remove (p @ [c]) t) q = None"
proof -
  assume "prefix (p @ [c]) q"
  then obtain r where "q = (p @ [c]) @ r" by (auto simp: prefix_def)
  then show ?thesis
    using lookup_remove_same [of p c t] lookup_append [of "p @ [c]" r "remove (p @ [c]) t"]
    by (simp add: stat_def)
qed


section \<open>Path lemmas\<close>

definition render :: "bool \<Rightarrow> string list \<Rightarrow> string" where
  "render r out = (if r then ''/'' @ join_sep out else if out = [] then ''.'' else join_sep out)"

definition normal :: "bool \<Rightarrow> string list \<Rightarrow> bool" where
  "normal r out =
     ((\<forall>c\<in>set out. c \<noteq> [] \<and> c \<noteq> ''.'' \<and> CHR ''/'' \<notin> set c)
      \<and> (\<exists>k ps. out = replicate k ''..'' @ ps \<and> ''..'' \<notin> set ps \<and> (r \<longrightarrow> k = 0)))"

lemma split_path_nonempty: "split_path p \<noteq> []"
  by (induction p) (auto split: list.splits)

lemma split_path_append: "split_path (a @ CHR ''/'' # b) = split_path a @ split_path b"
proof (induction a)
  case Nil
  then show ?case by simp
next
  case (Cons c a)
  then show ?case
    using split_path_nonempty [of a] by (auto split: list.splits)
qed

lemma split_path_nosep: "CHR ''/'' \<notin> set c \<Longrightarrow> split_path c = [c]"
  by (induction c) auto

lemma split_path_comps: "c \<in> set (split_path p) \<Longrightarrow> CHR ''/'' \<notin> set c"
proof (induction p arbitrary: c)
  case Nil
  then show ?case by simp
next
  case (Cons x p)
  then show ?case
    using split_path_nonempty [of p] by (auto split: if_splits list.splits)
qed

lemma split_path_join:
  "cs \<noteq> [] \<Longrightarrow> \<forall>c\<in>set cs. CHR ''/'' \<notin> set c \<Longrightarrow> split_path (join_sep cs) = cs"
proof (induction cs rule: join_sep.induct)
  case 1
  then show ?case by simp
next
  case (2 x)
  then show ?case by (simp add: split_path_nosep)
next
  case (3 x y ys)
  then show ?case
    using split_path_append [of x "join_sep (y # ys)"] by (simp add: split_path_nosep)
qed

lemma clean_step_normal:
  assumes "normal r out" and "CHR ''/'' \<notin> set c"
  shows "normal r (clean_step r out c)"
proof -
  from assms(1) obtain k ps where out: "out = replicate k ''..'' @ ps"
    and ps: "''..'' \<notin> set ps" and rk: "r \<longrightarrow> k = 0"
    and els: "\<forall>c\<in>set out. c \<noteq> [] \<and> c \<noteq> ''.'' \<and> CHR ''/'' \<notin> set c"
    by (auto simp: normal_def)
  consider (skip) "c = [] \<or> c = ''.''" | (up) "c = ''..''" | (name) "c \<noteq> [] \<and> c \<noteq> ''.'' \<and> c \<noteq> ''..''"
    by blast
  then show ?thesis
  proof cases
    case skip
    then show ?thesis using assms(1) by (auto simp: clean_step_def)
  next
    case name
    have "out @ [c] = replicate k ''..'' @ (ps @ [c])" using out by simp
    moreover have "''..'' \<notin> set (ps @ [c])" using ps name by auto
    ultimately have "\<exists>k ps. out @ [c] = replicate k ''..'' @ ps \<and> ''..'' \<notin> set ps \<and> (r \<longrightarrow> k = 0)"
      using rk by blast
    then show ?thesis
      using name els assms(2) by (simp add: clean_step_def normal_def)
  next
    case up
    show ?thesis
    proof (cases "out \<noteq> [] \<and> last out \<noteq> ''..''")
      case True
      then have "ps \<noteq> []" using out by (cases ps) auto
      then have "butlast out = replicate k ''..'' @ butlast ps"
        using out by (simp add: butlast_append)
      moreover have "''..'' \<notin> set (butlast ps)"
        using ps by (meson in_set_butlastD)
      ultimately have "\<exists>k ps. butlast out = replicate k ''..'' @ ps \<and> ''..'' \<notin> set ps \<and> (r \<longrightarrow> k = 0)"
        using rk by blast
      moreover have "\<forall>c\<in>set (butlast out). c \<noteq> [] \<and> c \<noteq> ''.'' \<and> CHR ''/'' \<notin> set c"
        using els by (meson in_set_butlastD)
      moreover have "clean_step r out c = butlast out"
        using up True by (auto simp: clean_step_def)
      ultimately show ?thesis
        by (simp add: normal_def)
    next
      case False
      show ?thesis
      proof (cases r)
        case True
        with up False have "clean_step r out c = out" by (auto simp: clean_step_def)
        with assms(1) show ?thesis by simp
      next
        case nr: False
        have "ps = []"
        proof (rule ccontr)
          assume "ps \<noteq> []"
          then have "out \<noteq> []" "last out = last ps" "last ps \<in> set ps" using out by auto
          with False ps show False by auto
        qed
        then have "out @ [''..''] = replicate (Suc k) ''..'' @ []"
          using out by (simp add: replicate_append_same)
        then have "\<exists>k ps. out @ [''..''] = replicate k ''..'' @ ps \<and> ''..'' \<notin> set ps \<and> (r \<longrightarrow> k = 0)"
          using nr by (metis empty_iff list.set(1))
        moreover have "clean_step r out c = out @ [''..'']"
          using up False nr by (auto simp: clean_step_def)
        ultimately show ?thesis
          using els by (simp add: normal_def)
      qed
    qed
  qed
qed

lemma butlast_replicate_eq: "butlast (replicate k x) = replicate (k - 1) x"
proof (cases k)
  case 0
  then show ?thesis by simp
next
  case (Suc n)
  have "replicate (Suc n) x = replicate n x @ [x]"
    by (simp add: replicate_append_same)
  then show ?thesis using Suc by (simp del: replicate_Suc)
qed

lemma normal_Nil: "normal r []"
  by (simp add: normal_def)

lemma foldl_clean_normal:
  "normal r acc \<Longrightarrow> \<forall>c\<in>set cs. CHR ''/'' \<notin> set c \<Longrightarrow> normal r (foldl (clean_step r) acc cs)"
  by (induction cs arbitrary: acc) (simp_all add: clean_step_normal)

lemma normal_butlast: "normal r (out @ [c]) \<Longrightarrow> normal r out"
proof -
  assume n: "normal r (out @ [c])"
  then obtain k ps where eq: "out @ [c] = replicate k ''..'' @ ps"
    and ps: "''..'' \<notin> set ps" and rk: "r \<longrightarrow> k = 0"
    by (auto simp: normal_def)
  have "\<exists>k ps. out = replicate k ''..'' @ ps \<and> ''..'' \<notin> set ps \<and> (r \<longrightarrow> k = 0)"
  proof (cases "ps = []")
    case True
    with eq have "out @ [c] = replicate k ''..''" by simp
    then have "out = butlast (replicate k ''..'')" by (metis butlast_snoc)
    then have "out = replicate (k - 1) ''..'' @ []" by (simp add: butlast_replicate_eq)
    moreover have "\<not> r"
    proof
      assume r
      with rk eq True show False by simp
    qed
    ultimately show ?thesis by (metis empty_iff list.set(1))
  next
    case False
    then have "out = replicate k ''..'' @ butlast ps"
      using eq by (metis butlast_append butlast_snoc)
    moreover have "''..'' \<notin> set (butlast ps)" using ps by (meson in_set_butlastD)
    ultimately show ?thesis using rk by blast
  qed
  with n show ?thesis by (simp add: normal_def)
qed

lemma normal_last_up:
  assumes "normal r (out @ [''..''])"
  shows "\<not> r \<and> (out = [] \<or> last out = ''..'')"
proof -
  from assms obtain k ps where eq: "out @ [''..''] = replicate k ''..'' @ ps"
    and ps: "''..'' \<notin> set ps" and rk: "r \<longrightarrow> k = 0"
    by (auto simp: normal_def)
  have "ps = []"
  proof (rule ccontr)
    assume "ps \<noteq> []"
    then have "last (out @ [''..'']) = last ps" "last ps \<in> set ps" using eq by auto
    with ps show False by simp
  qed
  with eq have e: "out @ [''..''] = replicate k ''..''" by simp
  then have "k \<noteq> 0" by (cases k) auto
  moreover from e have "out = butlast (replicate k ''..'')" by (metis butlast_snoc)
  then have "out = replicate (k - 1) ''..''" by (simp add: butlast_replicate_eq)
  then have "out = [] \<or> last out = ''..''" by (metis last_replicate replicate_empty)
  ultimately show ?thesis using rk by blast
qed

lemma foldl_clean_normal_id: "normal r out \<Longrightarrow> foldl (clean_step r) [] out = out"
proof (induction out rule: rev_induct)
  case Nil
  then show ?case by simp
next
  case (snoc c out)
  have ih: "foldl (clean_step r) [] out = out"
    using snoc normal_butlast by blast
  have c: "c \<noteq> [] \<and> c \<noteq> ''.''" using snoc.prems by (simp add: normal_def)
  have step: "foldl (clean_step r) [] (out @ [c]) = clean_step r out c"
    by (simp add: ih)
  show ?case
  proof (cases "c = ''..''")
    case True
    with snoc.prems have "\<not> r \<and> (out = [] \<or> last out = ''..'')"
      using normal_last_up by blast
    with True have "clean_step r out c = out @ [c]" by (auto simp: clean_step_def)
    with step show ?thesis by simp
  next
    case False
    with c have "clean_step r out c = out @ [c]" by (simp add: clean_step_def)
    with step show ?thesis by simp
  qed
qed


lemma filepath_Clean_render:
  "p \<noteq> [] \<Longrightarrow>
   filepath_Clean p = render (is_rooted p) (foldl (clean_step (is_rooted p)) [] (split_path p))"
  by (simp add: filepath_Clean_def render_def Let_def)

lemma clean_comps_normal: "normal (is_rooted p) (foldl (clean_step (is_rooted p)) [] (split_path p))"
  by (intro foldl_clean_normal normal_Nil ballI) (rule split_path_comps)

lemma normal_nosep: "normal r out \<Longrightarrow> \<forall>c\<in>set out. CHR ''/'' \<notin> set c"
  by (simp add: normal_def)

lemma join_sep_hd: "out \<noteq> [] \<Longrightarrow> hd out \<noteq> [] \<Longrightarrow> join_sep out \<noteq> [] \<and> hd (join_sep out) = hd (hd out)"
  by (induction out rule: join_sep.induct) auto

lemma is_rooted_render: "normal r out \<Longrightarrow> is_rooted (render r out) = r"
proof (cases r)
  case True
  then show ?thesis by (simp add: render_def is_rooted_def)
next
  case False
  assume n: "normal r out"
  show ?thesis
  proof (cases "out = []")
    case True
    with False show ?thesis by (simp add: render_def is_rooted_def)
  next
    case ne: False
    then have "hd out \<in> set out" by simp
    with n have h: "hd out \<noteq> [] \<and> CHR ''/'' \<notin> set (hd out)" by (simp add: normal_def)
    then have "hd (hd out) \<in> set (hd out)" by simp
    with h have "hd (hd out) \<noteq> CHR ''/''" by metis
    with join_sep_hd [of out] ne h False show ?thesis
      by (simp add: render_def is_rooted_def)
  qed
qed

lemma render_nonempty: "normal r out \<Longrightarrow> render r out \<noteq> []"
proof (cases "out = []")
  case True
  then show ?thesis by (simp add: render_def)
next
  case False
  assume "normal r out"
  with False have "hd out \<noteq> []" by (simp add: normal_def)
  with False show ?thesis
    using join_sep_hd [of out] by (simp add: render_def)
qed

lemma split_render:
  "normal r out \<Longrightarrow>
   split_path (render r out)
     = (if r then [] # (if out = [] then [[]] else out) else if out = [] then [''.''] else out)"
  using split_path_join [of out] normal_nosep [of r out]
  by (auto simp: render_def)

lemma clean_step_skip: "clean_step r acc [] = acc" "clean_step r acc ''.'' = acc"
  by (simp_all add: clean_step_def)

lemma clean_comps_render:
  assumes "normal r out"
  shows "foldl (clean_step r) [] (split_path (render r out)) = out"
proof -
  have id: "foldl (clean_step r) [] out = out"
    using assms by (rule foldl_clean_normal_id)
  have "foldl (clean_step r) [] (split_path (render r out)) = foldl (clean_step r) [] out"
    using split_render [OF assms]
    by (cases r; cases "out = []") (simp_all add: clean_step_skip)
  with id show ?thesis by simp
qed

lemma plain_normal_snoc: "normal r out \<Longrightarrow> plain n \<Longrightarrow> normal r (out @ [n])"
proof -
  assume n: "normal r out" and p: "plain n"
  then obtain k ps where "out = replicate k ''..'' @ ps" "''..'' \<notin> set ps" "r \<longrightarrow> k = 0"
    by (auto simp: normal_def)
  then have "out @ [n] = replicate k ''..'' @ (ps @ [n]) \<and> ''..'' \<notin> set (ps @ [n]) \<and> (r \<longrightarrow> k = 0)"
    using p by (auto simp: plain_def)
  then have "\<exists>k ps. out @ [n] = replicate k ''..'' @ ps \<and> ''..'' \<notin> set ps \<and> (r \<longrightarrow> k = 0)"
    by blast
  with n p show ?thesis by (simp add: normal_def plain_def)
qed

lemma clean_child:
  assumes "normal r out" and "plain n"
  shows "filepath_Clean (render r out @ ''/'' @ n) = render r (out @ [n])"
proof -
  let ?y = "render r out @ CHR ''/'' # n"
  have ne: "?y \<noteq> []" by simp
  have rooted: "is_rooted ?y = r"
    using is_rooted_render [OF assms(1)] render_nonempty [OF assms(1)]
    by (simp add: is_rooted_def)
  have "split_path ?y = split_path (render r out) @ split_path n"
    using split_path_append [of "render r out" n] by simp
  also have "split_path n = [n]"
    using assms(2) by (simp add: split_path_nosep plain_def)
  finally have sp: "split_path ?y = split_path (render r out) @ [n]" .
  have "foldl (clean_step r) [] (split_path ?y) = clean_step r out n"
    by (simp add: sp clean_comps_render [OF assms(1)])
  also have "\<dots> = out @ [n]"
    using assms(2) by (simp add: clean_step_def plain_def)
  finally show ?thesis
    using filepath_Clean_render [OF ne] rooted by simp
qed

definition cleaned :: "string \<Rightarrow> bool" where
  "cleaned p = (\<exists>r out. normal r out \<and> p = render r out)"

lemma cleaned_nonempty: "cleaned p \<Longrightarrow> p \<noteq> []"
  by (auto simp: cleaned_def render_nonempty)

lemma cleaned_Clean: "p \<noteq> [] \<Longrightarrow> cleaned (filepath_Clean p)"
  using filepath_Clean_render [of p] clean_comps_normal [of p]
  by (auto simp: cleaned_def)

lemma join_sep_nonempty: "es \<noteq> [] \<Longrightarrow> hd es \<noteq> [] \<Longrightarrow> join_sep es \<noteq> []"
  by (induction es rule: join_sep.induct) auto

lemma cleaned_Join: "filepath_Join elem \<noteq> [] \<Longrightarrow> cleaned (filepath_Join elem)"
proof -
  assume ne: "filepath_Join elem \<noteq> []"
  let ?es = "dropWhile (\<lambda>e. e = []) elem"
  from ne have es: "?es \<noteq> []"
    by (cases ?es) (simp_all add: filepath_Join_def)
  then have "hd ?es \<noteq> []" using hd_dropWhile [of "\<lambda>e. e = []" elem] by simp
  with es have "join_sep ?es \<noteq> []" by (rule join_sep_nonempty)
  then have "cleaned (filepath_Clean (join_sep ?es))" by (rule cleaned_Clean)
  with es show ?thesis by (auto simp: filepath_Join_def split: list.splits)
qed

lemma Join_child: "p \<noteq> [] \<Longrightarrow> n \<noteq> [] \<Longrightarrow> filepath_Join [p, n] = filepath_Clean (p @ ''/'' @ n)"
  by (simp add: filepath_Join_def)

lemma cleaned_child: "cleaned p \<Longrightarrow> plain n \<Longrightarrow> cleaned (filepath_Join [p, n])"
proof -
  assume c: "cleaned p" and n: "plain n"
  then obtain r out where no: "normal r out" and p: "p = render r out"
    by (auto simp: cleaned_def)
  have "filepath_Join [p, n] = render r (out @ [n])"
    using Join_child [of p n] clean_child [OF no n] cleaned_nonempty [OF c] n p
    by (simp add: plain_def)
  with plain_normal_snoc [OF no n] show ?thesis
    by (auto simp: cleaned_def)
qed

section \<open>Walking\<close>

lemma walk_append:
  "walk t cur (xs @ ys) = (case walk t cur xs of Inl e \<Rightarrow> Inl e | Inr a \<Rightarrow> walk t a ys)"
  by (induction xs arbitrary: cur) (auto split: option.splits kind.splits)

lemma walk_skip: "cs \<noteq> [] \<Longrightarrow> c = [] \<or> c = ''.'' \<Longrightarrow> walk t cur (c # cs) = walk t cur cs"
  by (cases cs) (auto split: option.splits kind.splits)

lemma walk_dirs_mono:
  "(\<And>q. stat t q = Some IsDir \<Longrightarrow> stat t' q = Some IsDir) \<Longrightarrow>
   walk t cur cs = Inr a \<Longrightarrow> walk t' cur cs = Inr a"
proof (induction cs arbitrary: cur)
  case Nil
  then show ?case by simp
next
  case (Cons c cs)
  from Cons.prems(2) have d: "stat t cur = Some IsDir"
    by (auto split: option.splits kind.splits)
  then have d': "stat t' cur = Some IsDir" by (rule Cons.prems(1))
  from Cons.prems(2) d d' Cons.IH [OF Cons.prems(1)] show ?case
    by (auto split: if_splits)
qed

lemma resolve_child:
  assumes "cleaned p" and "plain n"
  shows "resolve fs (filepath_Join [p, n])
           = (case resolve fs p of Inl e \<Rightarrow> Inl e | Inr a \<Rightarrow> walk (tree fs) a [n])"
proof -
  from assms(1) obtain r out where no: "normal r out" and p: "p = render r out"
    by (auto simp: cleaned_def)
  have no': "normal r (out @ [n])" using no assms(2) by (rule plain_normal_snoc)
  have j: "filepath_Join [p, n] = render r (out @ [n])"
    using Join_child [of p n] clean_child [OF no assms(2)] cleaned_nonempty [OF assms(1)]
      assms(2) p
    by (simp add: plain_def)
  let ?st = "if r then [] else cwd fs"
  have "walk (tree fs) ?st (split_path (render r (out @ [n])))
          = walk (tree fs) ?st (split_path (render r out) @ [n])"
  proof (cases "out = []")
    case True
    have a: "walk (tree fs) [] [[], [], n] = walk (tree fs) [] [[], n]"
      by (rule walk_skip) simp_all
    have b: "walk (tree fs) (cwd fs) [''.'', n] = walk (tree fs) (cwd fs) [n]"
      by (rule walk_skip) simp_all
    from True a b show ?thesis
      using split_render [OF no] split_render [OF no']
      by (cases r) simp_all
  next
    case False
    then show ?thesis
      by (simp add: split_render [OF no] split_render [OF no'])
  qed
  moreover have "resolve fs (filepath_Join [p, n])
      = walk (tree fs) ?st (split_path (render r (out @ [n])))"
    unfolding j
    by (simp add: resolve_def start_dir_def is_rooted_render [OF no'] render_nonempty [OF no'])
  moreover have "resolve fs p = walk (tree fs) ?st (split_path (render r out))"
    unfolding p
    by (simp add: resolve_def start_dir_def is_rooted_render [OF no] render_nonempty [OF no])
  ultimately show ?thesis
    by (simp add: walk_append)
qed

section \<open>Effects of the primitives\<close>

fun lex :: "string list \<Rightarrow> string list \<Rightarrow> string list" where
  "lex cur [] = cur"
| "lex cur (c # cs) =
     (if c = [] \<or> c = ''.'' then lex cur cs
      else if c = ''..'' then lex (butlast cur) cs
      else lex (cur @ [c]) cs)"

definition grows :: "node \<Rightarrow> node \<Rightarrow> bool" where
  "grows t t' = (\<forall>q. stat t' q = stat t q \<or> (stat t q = None \<and> stat t' q = Some IsDir))"

lemma walk_target: "walk t cur cs = Inr a \<Longrightarrow> a = lex cur cs"
  by (induction cs arbitrary: cur) (auto split: option.splits kind.splits if_splits)

lemma resolve_cwd:
  "resolve fs p = Inr a \<Longrightarrow> cwd fs' = cwd fs \<Longrightarrow> resolve fs' p = Inr b \<Longrightarrow> b = a"
  by (auto simp: resolve_def start_dir_def dest!: walk_target split: if_splits)

lemma stat_butlast_dir: "stat t cur = Some IsDir \<Longrightarrow> stat t (butlast cur) = Some IsDir"
proof (cases cur rule: rev_cases)
  case Nil
  assume "stat t cur = Some IsDir"
  with Nil show ?thesis by simp
next
  case (snoc p c)
  assume "stat t cur = Some IsDir"
  with snoc have "stat t (p @ [c]) \<noteq> None" by simp
  then have "stat t p = Some IsDir" by (rule stat_parent_dir)
  with snoc show ?thesis by simp
qed

lemma stat_below_none: "stat t p \<noteq> Some IsDir \<Longrightarrow> r \<noteq> [] \<Longrightarrow> stat t (p @ r) = None"
proof -
  assume a: "stat t p \<noteq> Some IsDir" and r: "r \<noteq> []"
  obtain c r' where "r = c # r'" using r by (cases r) auto
  then show ?thesis
    using a lookup_append [of p r t]
    by (cases "lookup p t") (auto simp: stat_def kind_of_dir split: node.splits)
qed

lemma stat_put_file:
  assumes "stat t p = Some IsDir" and "stat t (p @ [c]) \<noteq> Some IsDir"
  shows "stat (put (p @ [c]) (File d) t) q = (if q = p @ [c] then Some (IsFile d) else stat t q)"
proof -
  from assms(1) obtain es where es: "lookup p t = Some (Dir es)" by (auto simp: stat_dir_iff)
  show ?thesis
  proof (cases "prefix (p @ [c]) q")
    case False
    then have "q \<noteq> p @ [c]" by auto
    with False show ?thesis by (simp add: stat_put_other)
  next
    case True
    then obtain r where q: "q = p @ c # r" by (auto simp: prefix_def)
    show ?thesis
    proof (cases "r = []")
      case True
      with q es show ?thesis by (simp add: stat_def lookup_put_same)
    next
      case False
      then have "lookup r (File d) = None" by (cases r) auto
      moreover have "stat t ((p @ [c]) @ r) = None"
        using assms(2) False by (rule stat_below_none)
      ultimately show ?thesis
        using q False lookup_put_below [OF es, of c r "File d"] by (simp add: stat_def)
    qed
  qed
qed

lemma stat_put_dir:
  assumes "stat t p = Some IsDir" and "stat t (p @ [c]) = None"
  shows "stat (put (p @ [c]) (Dir []) t) q = (if q = p @ [c] then Some IsDir else stat t q)"
proof -
  from assms(1) obtain es where es: "lookup p t = Some (Dir es)" by (auto simp: stat_dir_iff)
  show ?thesis
  proof (cases "prefix (p @ [c]) q")
    case False
    then have "q \<noteq> p @ [c]" by auto
    with False show ?thesis by (simp add: stat_put_other)
  next
    case True
    then obtain r where q: "q = p @ c # r" by (auto simp: prefix_def)
    show ?thesis
    proof (cases "r = []")
      case True
      with q es show ?thesis by (simp add: stat_def lookup_put_same)
    next
      case False
      then have "lookup r (Dir []) = None" by (cases r) auto
      moreover have "stat t ((p @ [c]) @ r) = None"
        using False by (intro stat_below_none) (simp_all add: assms(2))
      ultimately show ?thesis
        using q False lookup_put_below [OF es, of c r "Dir []"] by (simp add: stat_def)
    qed
  qed
qed

lemma grows_refl: "grows t t"
  by (simp add: grows_def)

lemma grows_trans: "grows t t1 \<Longrightarrow> grows t1 t2 \<Longrightarrow> grows t t2"
  unfolding grows_def by (metis option.distinct(1))

lemma grows_dir: "grows t t' \<Longrightarrow> stat t q = Some IsDir \<Longrightarrow> stat t' q = Some IsDir"
  unfolding grows_def by (metis option.distinct(1))

lemma grows_some: "grows t t' \<Longrightarrow> stat t q = Some k \<Longrightarrow> stat t' q = Some k"
  unfolding grows_def by (metis option.distinct(1))

lemma grows_put_dir:
  "stat t p = Some IsDir \<Longrightarrow> stat t (p @ [c]) = None \<Longrightarrow> grows t (put (p @ [c]) (Dir []) t)"
  by (simp add: grows_def stat_put_dir)

lemma mkdir_walk_grows: "mkdir_walk t cur cs = (r, t') \<Longrightarrow> grows t t'"
proof (induction cs arbitrary: t cur)
  case Nil
  then show ?case by (simp add: grows_refl)
next
  case (Cons c cs)
  show ?case
  proof (cases "stat t cur = Some IsDir")
    case False
    with Cons.prems show ?thesis
      by (auto simp: grows_refl split: option.splits kind.splits)
  next
    case dir: True
    consider (skip) "c = [] \<or> c = ''.''" | (up) "c = ''..''"
      | (name) "c \<noteq> [] \<and> c \<noteq> ''.'' \<and> c \<noteq> ''..''" by blast
    then show ?thesis
    proof cases
      case skip
      with Cons.prems dir have "mkdir_walk t cur cs = (r, t')" by auto
      then show ?thesis by (rule Cons.IH)
    next
      case up
      with Cons.prems dir have "mkdir_walk t (butlast cur) cs = (r, t')" by auto
      then show ?thesis by (rule Cons.IH)
    next
      case name
      show ?thesis
      proof (cases "stat t (cur @ [c])")
        case None
        with Cons.prems dir name
        have "mkdir_walk (put (cur @ [c]) (Dir []) t) (cur @ [c]) cs = (r, t')" by auto
        then have "grows (put (cur @ [c]) (Dir []) t) t'" by (rule Cons.IH)
        with grows_put_dir [OF dir None] show ?thesis by (rule grows_trans)
      next
        case (Some k)
        show ?thesis
        proof (cases k)
          case (IsFile d)
          with Cons.prems dir name Some show ?thesis by (auto simp: grows_refl)
        next
          case IsDir
          with Cons.prems dir name Some have "mkdir_walk t (cur @ [c]) cs = (r, t')" by auto
          then show ?thesis by (rule Cons.IH)
        qed
      qed
    qed
  qed
qed

lemma mkdir_walk_target:
  "stat t cur = Some IsDir \<Longrightarrow> mkdir_walk t cur cs = (None, t') \<Longrightarrow>
   walk t' cur cs = Inr (lex cur cs) \<and> stat t' (lex cur cs) = Some IsDir"
proof (induction cs arbitrary: t cur)
  case Nil
  then show ?case by simp
next
  case (Cons c cs)
  note dir = Cons.prems(1)
  have g: "grows t t'" using Cons.prems(2) by (rule mkdir_walk_grows)
  then have dir': "stat t' cur = Some IsDir" using dir by (rule grows_dir)
  consider (skip) "c = [] \<or> c = ''.''" | (up) "c = ''..''"
    | (name) "c \<noteq> [] \<and> c \<noteq> ''.'' \<and> c \<noteq> ''..''" by blast
  then show ?case
  proof cases
    case skip
    with Cons.prems have "mkdir_walk t cur cs = (None, t')" by auto
    from Cons.IH [OF dir this] skip dir' show ?thesis by auto
  next
    case up
    with Cons.prems have "mkdir_walk t (butlast cur) cs = (None, t')" by auto
    from Cons.IH [OF stat_butlast_dir [OF dir] this] up dir' show ?thesis by auto
  next
    case name
    show ?thesis
    proof (cases "stat t (cur @ [c])")
      case None
      let ?t1 = "put (cur @ [c]) (Dir []) t"
      from Cons.prems name None
      have m: "mkdir_walk ?t1 (cur @ [c]) cs = (None, t')" by auto
      have "stat ?t1 (cur @ [c]) = Some IsDir" using dir None by (simp add: stat_put_dir)
      from Cons.IH [OF this m] name dir' show ?thesis by auto
    next
      case (Some k)
      show ?thesis
      proof (cases k)
        case (IsFile d)
        with Cons.prems name Some show ?thesis by auto
      next
        case IsDir
        with Cons.prems name Some have m: "mkdir_walk t (cur @ [c]) cs = (None, t')" by auto
        from Some IsDir have "stat t (cur @ [c]) = Some IsDir" by simp
        from Cons.IH [OF this m] name dir' show ?thesis by auto
      qed
    qed
  qed
qed

lemma mkdir_walk_start: "mkdir_walk t cur cs = (None, t') \<Longrightarrow> cs \<noteq> [] \<Longrightarrow> stat t cur = Some IsDir"
  by (cases cs) (auto split: option.splits kind.splits)

lemma walk_grows: "grows t t' \<Longrightarrow> walk t cur cs = Inr a \<Longrightarrow> walk t' cur cs = Inr a"
  using walk_dirs_mono [of t t' cur cs a] grows_dir [of t t'] by blast

lemma walk_plain:
  "plain n \<Longrightarrow>
   walk t a [n] = (case stat t a of None \<Rightarrow> Inl ENOENT | Some (IsFile d) \<Rightarrow> Inl ENOTDIR
                   | Some IsDir \<Rightarrow> Inr (a @ [n]))"
  by (auto simp: plain_def split: option.splits kind.splits)

section \<open>Documents (pkg/document/types.go)\<close>

type_synonym time = int

record Document =
  ID :: string
  Name :: string
  HTMLContent :: string
  CreatedAt :: time
  UpdatedAt :: time

record Metadata =
  meta_Name :: string
  meta_CreatedAt :: time
  meta_UpdatedAt :: time

record DocumentInfo =
  info_ID :: string
  info_Name :: string
  info_CreatedAt :: time
  info_UpdatedAt :: time
  info_FilePath :: string

datatype error =
    ErrEmptyName
  | ErrEmptyHTML
  | ErrInvalidID string
  | ErrEmptySource
  | ErrMediaType string
  | ErrUnsupportedFormat string
  | ErrNotExist string
  | ErrOS os_error
  | ErrJSON
  | ErrRenderer string
  | Wrap string error

fun cause :: "error \<Rightarrow> error" where
  "cause (Wrap msg e) = cause e"
| "cause e = e"

datatype error_class = ValidationError | NotFoundError | StorageIOError | RendererError

fun classify :: "error \<Rightarrow> error_class" where
  "classify ErrEmptyName = ValidationError"
| "classify ErrEmptyHTML = ValidationError"
| "classify (ErrInvalidID i) = ValidationError"
| "classify ErrEmptySource = ValidationError"
| "classify (ErrMediaType m) = ValidationError"
| "classify (ErrUnsupportedFormat f) = ValidationError"
| "classify (ErrNotExist i) = NotFoundError"
| "classify (ErrOS e) = StorageIOError"
| "classify ErrJSON = StorageIOError"
| "classify (ErrRenderer m) = RendererError"
| "classify (Wrap msg e) = classify e"

record lib =
  slug_Make :: "string \<Rightarrow> string"
  json_MarshalIndent :: "Metadata \<Rightarrow> string option"
  json_Unmarshal :: "string \<Rightarrow> Metadata option"

section \<open>Storage engine\<close>

record Storage =
  rootDir :: string

definition GetDocumentPath :: "Storage \<Rightarrow> string \<Rightarrow> string" where
  "GetDocumentPath s documentID = filepath_Join [rootDir s, documentID]"

definition GetHTMLPath :: "Storage \<Rightarrow> string \<Rightarrow> string" where
  "GetHTMLPath s documentID = filepath_Join [GetDocumentPath s documentID, ''index.html'']"

definition GetMetadataPath :: "Storage \<Rightarrow> string \<Rightarrow> string" where
  "GetMetadataPath s documentID = filepath_Join [GetDocumentPath s documentID, ''metadata.json'']"

definition GetMediaDir :: "Storage \<Rightarrow> string \<Rightarrow> string" where
  "GetMediaDir s documentID = filepath_Join [GetDocumentPath s documentID, ''media'']"

definition DocumentExists :: "Storage \<Rightarrow> filesys \<Rightarrow> string \<Rightarrow> bool" where
  "DocumentExists s fs documentID =
     (case os_Stat fs (GetHTMLPath s documentID) of Inl e \<Rightarrow> False | Inr k \<Rightarrow> True)"

definition WriteMetadata ::
  "lib \<Rightarrow> Storage \<Rightarrow> filesys \<Rightarrow> string \<Rightarrow> Metadata \<Rightarrow> error option \<times> filesys" where
  "WriteMetadata L s fs documentID metadata =
     (case json_MarshalIndent L metadata of
        None \<Rightarrow> (Some (Wrap ''failed to marshal metadata'' ErrJSON), fs)
      | Some content \<Rightarrow>
          (case os_WriteFile fs (GetMetadataPath s documentID) content of
             Inl e \<Rightarrow> (Some (Wrap ''failed to write metadata file'' (ErrOS e)), fs)
           | Inr fs' \<Rightarrow> (None, fs')))"

definition ReadMetadata :: "lib \<Rightarrow> Storage \<Rightarrow> filesys \<Rightarrow> string \<Rightarrow> error + Metadata" where
  "ReadMetadata L s fs documentID =
     (case os_ReadFile fs (GetMetadataPath s documentID) of
        Inl e \<Rightarrow> Inl (Wrap ''failed to read metadata file'' (ErrOS e))
      | Inr content \<Rightarrow>
          (case json_Unmarshal L content of
             None \<Rightarrow> Inl (Wrap ''failed to unmarshal metadata'' ErrJSON)
           | Some metadata \<Rightarrow> Inr metadata))"

definition metadata_of :: "Document \<Rightarrow> Metadata" where
  "metadata_of doc =
     \<lparr>meta_Name = Name doc, meta_CreatedAt = CreatedAt doc, meta_UpdatedAt = UpdatedAt doc\<rparr>"

definition Storage_CreateDocument ::
  "lib \<Rightarrow> Storage \<Rightarrow> filesys \<Rightarrow> Document \<Rightarrow> error option \<times> filesys" where
  "Storage_CreateDocument L s fs doc =
     (case os_MkdirAll fs (GetDocumentPath s (ID doc)) of
        (Some e, fs1) \<Rightarrow> (Some (Wrap ''failed to create document directory'' (ErrOS e)), fs1)
      | (None, fs1) \<Rightarrow>
     (case os_MkdirAll fs1 (GetMediaDir s (ID doc)) of
        (Some e, fs2) \<Rightarrow> (Some (Wrap ''failed to create media directory'' (ErrOS e)), fs2)
      | (None, fs2) \<Rightarrow>
     (case os_WriteFile fs2 (GetHTMLPath s (ID doc)) (HTMLContent doc) of
        Inl e \<Rightarrow> (Some (Wrap ''failed to write HTML file'' (ErrOS e)), fs2)
      | Inr fs3 \<Rightarrow>
     (case WriteMetadata L s fs3 (ID doc) (metadata_of doc) of
        (Some e, fs4) \<Rightarrow> (Some (Wrap ''failed to write metadata'' e), fs4)
      | (None, fs4) \<Rightarrow> (None, fs4)))))"

definition Storage_UpdateDocument ::
  "lib \<Rightarrow> Storage \<Rightarrow> filesys \<Rightarrow> Document \<Rightarrow> error option \<times> filesys" where
  "Storage_UpdateDocument L s fs doc =
     (if \<not> DocumentExists s fs (ID doc) then (Some (ErrNotExist (ID doc)), fs)
      else
     (case os_WriteFile fs (GetHTMLPath s (ID doc)) (HTMLContent doc) of
        Inl e \<Rightarrow> (Some (Wrap ''failed to write HTML file'' (ErrOS e)), fs)
      | Inr fs1 \<Rightarrow>
     (case WriteMetadata L s fs1 (ID doc) (metadata_of doc) of
        (Some e, fs2) \<Rightarrow> (Some (Wrap ''failed to write metadata'' e), fs2)
      | (None, fs2) \<Rightarrow> (None, fs2))))"

definition Storage_GetDocument ::
  "lib \<Rightarrow> Storage \<Rightarrow> filesys \<Rightarrow> string \<Rightarrow> error + Document" where
  "Storage_GetDocument L s fs documentID =
     (if \<not> DocumentExists s fs documentID then Inl (ErrNotExist documentID)
      else
     (case os_ReadFile fs (GetHTMLPath s documentID) of
        Inl e \<Rightarrow> Inl (Wrap ''failed to read HTML file'' (ErrOS e))
      | Inr htmlBytes \<Rightarrow>
     (case ReadMetadata L s fs documentID of
        Inl e \<Rightarrow> Inl (Wrap ''failed to read metadata'' e)
      | Inr metadata \<Rightarrow>
          Inr \<lparr>ID = documentID, Name = meta_Name metadata, HTMLContent = htmlBytes,
               CreatedAt = meta_CreatedAt metadata, UpdatedAt = meta_UpdatedAt metadata\<rparr>)))"

text \<open>The body of the loop over the directory entries, with the slice \<open>docs\<close> built so far.\<close>

fun list_loop ::
  "lib \<Rightarrow> Storage \<Rightarrow> filesys \<Rightarrow> (string \<times> bool) list \<Rightarrow> DocumentInfo list \<Rightarrow> DocumentInfo list" where
  "list_loop L s fs [] docs = docs"
| "list_loop L s fs ((documentID, isDir) # entries) docs =
     (if \<not> isDir then list_loop L s fs entries docs
      else if \<not> DocumentExists s fs documentID then list_loop L s fs entries docs
      else
        (case ReadMetadata L s fs documentID of
           Inl e \<Rightarrow> list_loop L s fs entries docs
         | Inr metadata \<Rightarrow>
             list_loop L s fs entries
               (docs @ [\<lparr>info_ID = documentID, info_Name = meta_Name metadata,
                          info_CreatedAt = meta_CreatedAt metadata,
                          info_UpdatedAt = meta_UpdatedAt metadata,
                          info_FilePath = filepath_Join [documentID, ''index.html'']\<rparr>])))"

definition ListDocuments :: "lib \<Rightarrow> Storage \<Rightarrow> filesys \<Rightarrow> error + DocumentInfo list" where
  "ListDocuments L s fs =
     (case os_ReadDir fs (rootDir s) of
        Inl e \<Rightarrow> Inl (Wrap ''failed to read root directory'' (ErrOS e))
      | Inr entries \<Rightarrow> Inr (list_loop L s fs entries []))"

definition CopyMediaFile ::
  "Storage \<Rightarrow> filesys \<Rightarrow> string \<Rightarrow> string \<Rightarrow> (error + string) \<times> filesys" where
  "CopyMediaFile s fs documentID sourcePath =
     (if \<not> DocumentExists s fs documentID then (Inl (ErrNotExist documentID), fs)
      else
     (case os_Open fs sourcePath of
        Inl e \<Rightarrow> (Inl (Wrap ''failed to open source file'' (ErrOS e)), fs)
      | Inr srcFile \<Rightarrow>
     (let filename = filepath_Base sourcePath;
          mediaDir = GetMediaDir s documentID;
          destPath = filepath_Join [mediaDir, filename]
      in
     (case os_Create fs destPath of
        Inl e \<Rightarrow> (Inl (Wrap ''failed to create destination file'' (ErrOS e)), fs)
      | Inr (destFile, fs1) \<Rightarrow>
     (case io_Copy fs1 destFile srcFile of
        Inl e \<Rightarrow> (Inl (Wrap ''failed to copy file'' (ErrOS e)), fs1)
      | Inr fs2 \<Rightarrow> (Inr (filepath_Join [''media'', filename]), fs2))))))"

definition DeleteDocument :: "Storage \<Rightarrow> filesys \<Rightarrow> string \<Rightarrow> error option \<times> filesys" where
  "DeleteDocument s fs documentID =
     (if \<not> DocumentExists s fs documentID then (Some (ErrNotExist documentID), fs)
      else
     (case os_RemoveAll fs (GetDocumentPath s documentID) of
        (Some e, fs1) \<Rightarrow> (Some (Wrap ''failed to delete document directory'' (ErrOS e)), fs1)
      | (None, fs1) \<Rightarrow> (None, fs1)))"

section \<open>Document service\<close>

definition Service_CreateDocument ::
  "lib \<Rightarrow> Storage \<Rightarrow> filesys \<Rightarrow> string \<Rightarrow> string \<Rightarrow> time \<Rightarrow> (nat \<Rightarrow> draw)
     \<Rightarrow> (error + Document) \<times> filesys" where
  "Service_CreateDocument L s fs name htmlContent now rnd =
     (if name = [] then (Inl ErrEmptyName, fs)
      else if htmlContent = [] then (Inl ErrEmptyHTML, fs)
      else
        (let documentID = GenerateDocumentID (slug_Make L) name (DocumentExists s fs) rnd;
             doc = \<lparr>ID = documentID, Name = name, HTMLContent = htmlContent,
                    CreatedAt = now, UpdatedAt = now\<rparr>
         in (case Storage_CreateDocument L s fs doc of
               (Some e, fs') \<Rightarrow> (Inl (Wrap ''failed to create document'' e), fs')
             | (None, fs') \<Rightarrow> (Inr doc, fs'))))"


definition Service_GetDocument :: "lib \<Rightarrow> Storage \<Rightarrow> filesys \<Rightarrow> string \<Rightarrow> error + Document" where
  "Service_GetDocument L s fs documentID =
     (if \<not> ValidateDocumentID documentID then Inl (ErrInvalidID documentID)
      else
        (case Storage_GetDocument L s fs documentID of
           Inl e \<Rightarrow> Inl (Wrap ''failed to get document'' e)
         | Inr doc \<Rightarrow> Inr doc))"

definition Service_ListDocuments :: "lib \<Rightarrow> Storage \<Rightarrow> filesys \<Rightarrow> error + DocumentInfo list" where
  "Service_ListDocuments L s fs =
     (case ListDocuments L s fs of
        Inl e \<Rightarrow> Inl (Wrap ''failed to list documents'' e)
      | Inr docs \<Rightarrow> Inr docs)"

definition AddMedia ::
  "Storage \<Rightarrow> filesys \<Rightarrow> string \<Rightarrow> string \<Rightarrow> string \<Rightarrow> (error + string) \<times> filesys" where
  "AddMedia s fs documentID sourcePath mediaType =
     (if \<not> ValidateDocumentID documentID then (Inl (ErrInvalidID documentID), fs)
      else if sourcePath = [] then (Inl ErrEmptySource, fs)
      else if mediaType \<noteq> ''image'' \<and> mediaType \<noteq> ''video'' then (Inl (ErrMediaType mediaType), fs)
      else
        (case CopyMediaFile s fs documentID sourcePath of
           (Inl e, fs') \<Rightarrow> (Inl (Wrap ''failed to add media'' e), fs')
         | (Inr relativePath, fs') \<Rightarrow> (Inr relativePath, fs')))"

definition Service_DeleteDocument :: "Storage \<Rightarrow> filesys \<Rightarrow> string \<Rightarrow> error option \<times> filesys" where
  "Service_DeleteDocument s fs documentID =
     (if \<not> ValidateDocumentID documentID then (Some (ErrInvalidID documentID), fs)
      else
        (case DeleteDocument s fs documentID of
           (Some e, fs') \<Rightarrow> (Some (Wrap ''failed to delete document'' e), fs')
         | (None, fs') \<Rightarrow> (None, fs')))"

text \<open>Stand-ins for closed evaluations.\<close>

definition demo_marshal :: "Metadata \<Rightarrow> string option" where
  "demo_marshal m =
     Some (replicate (nat (meta_CreatedAt m)) CHR ''c'' @ ''|''
           @ replicate (nat (meta_UpdatedAt m)) CHR ''u'' @ ''|'' @ meta_Name m)"

definition demo_unmarshal :: "string \<Rightarrow> Metadata option" where
  "demo_unmarshal content =
     (let c = takeWhile (\<lambda>x. x = CHR ''c'') content;
          r1 = drop (length c) content
      in if r1 = [] \<or> hd r1 \<noteq> CHR ''|'' then None
         else
           (let u = takeWhile (\<lambda>x. x = CHR ''u'') (tl r1);
                r2 = drop (length u) (tl r1)
            in if r2 = [] \<or> hd r2 \<noteq> CHR ''|'' then None
               else Some \<lparr>meta_Name = tl r2, meta_CreatedAt = int (length c),
                           meta_UpdatedAt = int (length u)\<rparr>))"

definition demo_lib :: lib where
  "demo_lib = \<lparr>slug_Make = slug_unchanged, json_MarshalIndent = demo_marshal,
                json_Unmarshal = demo_unmarshal\<rparr>"

definition demo_storage :: Storage where
  "demo_storage = \<lparr>rootDir = ''/docs''\<rparr>"

definition demo_fs :: filesys where
  "demo_fs = \<lparr>tree = Dir [(''docs'', Dir []), (''tmp'', Dir [(''pic.png'', File ''PNG'')])], cwd = [''tmp'']\<rparr>"

section \<open>The primitives at a child of a cleaned path\<close>

definition entry :: "filesys \<Rightarrow> string \<Rightarrow> string \<Rightarrow> kind option" where
  "entry fs p n = (case resolve fs p of Inl e \<Rightarrow> None | Inr a \<Rightarrow> stat (tree fs) (a @ [n]))"

definition same_dirs :: "node \<Rightarrow> node \<Rightarrow> bool" where
  "same_dirs t t' = (\<forall>q. (stat t q = Some IsDir) = (stat t' q = Some IsDir))"

lemma resolve_child_Inr:
  assumes "cleaned p" and "plain n"
  shows "resolve fs (filepath_Join [p, n]) = Inr b
           \<longleftrightarrow> (\<exists>a. resolve fs p = Inr a \<and> stat (tree fs) a = Some IsDir \<and> b = a @ [n])"
  unfolding resolve_child [OF assms] walk_plain [OF assms(2)]
  by (auto split: sum.splits option.splits kind.splits)

lemma os_Stat_child:
  assumes "cleaned p" and "plain n"
  shows "os_Stat fs (filepath_Join [p, n]) = Inr k \<longleftrightarrow> entry fs p n = Some k"
proof
  assume "os_Stat fs (filepath_Join [p, n]) = Inr k"
  then obtain b where b: "resolve fs (filepath_Join [p, n]) = Inr b" "stat (tree fs) b = Some k"
    by (auto simp: os_Stat_def split: sum.splits option.splits)
  with resolve_child_Inr [OF assms] obtain a where "resolve fs p = Inr a" "b = a @ [n]" by blast
  with b show "entry fs p n = Some k" by (simp add: entry_def)
next
  assume "entry fs p n = Some k"
  then obtain a where a: "resolve fs p = Inr a" "stat (tree fs) (a @ [n]) = Some k"
    by (auto simp: entry_def split: sum.splits)
  then have "stat (tree fs) a = Some IsDir" by (intro stat_parent_dir [of _ _ n]) simp
  with a resolve_child_Inr [OF assms, of fs "a @ [n]"]
  have "resolve fs (filepath_Join [p, n]) = Inr (a @ [n])" by simp
  with a show "os_Stat fs (filepath_Join [p, n]) = Inr k" by (simp add: os_Stat_def)
qed

lemma os_ReadFile_child:
  assumes "cleaned p" and "plain n"
  shows "os_ReadFile fs (filepath_Join [p, n]) = Inr d \<longleftrightarrow> entry fs p n = Some (IsFile d)"
proof
  assume "os_ReadFile fs (filepath_Join [p, n]) = Inr d"
  then obtain b where b: "resolve fs (filepath_Join [p, n]) = Inr b"
      "stat (tree fs) b = Some (IsFile d)"
    by (auto simp: os_ReadFile_def split: sum.splits option.splits kind.splits)
  with resolve_child_Inr [OF assms] obtain a where "resolve fs p = Inr a" "b = a @ [n]" by blast
  with b show "entry fs p n = Some (IsFile d)" by (simp add: entry_def)
next
  assume "entry fs p n = Some (IsFile d)"
  then obtain a where a: "resolve fs p = Inr a" "stat (tree fs) (a @ [n]) = Some (IsFile d)"
    by (auto simp: entry_def split: sum.splits)
  then have "stat (tree fs) a = Some IsDir" by (intro stat_parent_dir [of _ _ n]) simp
  with a resolve_child_Inr [OF assms, of fs "a @ [n]"]
  have "resolve fs (filepath_Join [p, n]) = Inr (a @ [n])" by simp
  with a show "os_ReadFile fs (filepath_Join [p, n]) = Inr d" by (simp add: os_ReadFile_def)
qed

lemma walk_same_dirs:
  "same_dirs t t' \<Longrightarrow> walk t cur cs = Inr a \<Longrightarrow> walk t' cur cs = Inr a"
  using walk_dirs_mono [of t t' cur cs a] by (simp add: same_dirs_def)

lemma same_dirs_sym: "same_dirs t t' \<Longrightarrow> same_dirs t' t"
  by (simp add: same_dirs_def)

lemma start_dir_cwd: "cwd fs' = cwd fs \<Longrightarrow> start_dir fs' p = start_dir fs p"
  by (simp add: start_dir_def)

lemma resolve_same_dirs:
  assumes "same_dirs (tree fs) (tree fs')" and "cwd fs' = cwd fs"
  shows "(resolve fs' p = Inr a) = (resolve fs p = Inr a)"
proof (cases "p = []")
  case True
  then show ?thesis by (simp add: resolve_def)
next
  case False
  have "walk (tree fs') (start_dir fs p) (split_path p) = Inr a
          \<longleftrightarrow> walk (tree fs) (start_dir fs p) (split_path p) = Inr a"
    using walk_same_dirs [OF assms(1)] walk_same_dirs [OF same_dirs_sym [OF assms(1)]]
    by blast
  with False show ?thesis by (simp add: resolve_def start_dir_cwd [OF assms(2)])
qed

lemma resolve_grows:
  assumes "grows (tree fs) (tree fs')" and "cwd fs' = cwd fs" and "resolve fs p = Inr a"
  shows "resolve fs' p = Inr a"
proof -
  from assms(3) have ne: "p \<noteq> []" by (auto simp: resolve_def split: if_splits)
  with assms(3) have "walk (tree fs) (start_dir fs p) (split_path p) = Inr a"
    by (simp add: resolve_def)
  with assms(1) have "walk (tree fs') (start_dir fs p) (split_path p) = Inr a"
    by (rule walk_grows)
  with ne show ?thesis by (simp add: resolve_def start_dir_cwd [OF assms(2)])
qed

text \<open>Writing a file at a child of a cleaned path.\<close>

lemma os_WriteFile_fail:
  "resolve fs p = Inl e \<Longrightarrow> os_WriteFile fs p c = Inl e"
  by (simp add: os_WriteFile_def)

lemma os_WriteFile_dir:
  "resolve fs p = Inr b \<Longrightarrow> stat (tree fs) b = Some IsDir \<Longrightarrow> os_WriteFile fs p c = Inl EISDIR"
  by (simp add: os_WriteFile_def)

lemma os_WriteFile_put:
  "resolve fs p = Inr b \<Longrightarrow> stat (tree fs) b \<noteq> Some IsDir \<Longrightarrow>
   os_WriteFile fs p c = Inr (fs\<lparr>tree := put b (File c) (tree fs)\<rparr>)"
  by (cases "stat (tree fs) b") (auto simp: os_WriteFile_def split: kind.splits)

lemma os_WriteFile_Inr:
  assumes "os_WriteFile fs p c = Inr fs'"
  obtains b where "resolve fs p = Inr b" and "stat (tree fs) b \<noteq> Some IsDir"
    and "fs' = fs\<lparr>tree := put b (File c) (tree fs)\<rparr>"
proof (cases "resolve fs p")
  case (Inl e)
  with assms os_WriteFile_fail [OF Inl, of c] show ?thesis by simp
next
  case (Inr b)
  show ?thesis
  proof (cases "stat (tree fs) b = Some IsDir")
    case True
    with assms os_WriteFile_dir [OF Inr True, of c] show ?thesis by simp
  next
    case False
    with assms os_WriteFile_put [OF Inr False, of c] have "fs' = fs\<lparr>tree := put b (File c) (tree fs)\<rparr>"
      by simp
    with Inr False show ?thesis by (rule that)
  qed
qed

lemma os_WriteFile_child:
  assumes "cleaned p" and "plain n" and "os_WriteFile fs (filepath_Join [p, n]) c = Inr fs'"
  shows "cwd fs' = cwd fs"
    and "\<exists>a. resolve fs p = Inr a \<and> stat (tree fs) a = Some IsDir
            \<and> (\<forall>q. stat (tree fs') q
                   = (if q = a @ [n] then Some (IsFile c) else stat (tree fs) q))"
    and "same_dirs (tree fs) (tree fs')"
proof -
  from assms(3) obtain b where b: "resolve fs (filepath_Join [p, n]) = Inr b"
      "stat (tree fs) b \<noteq> Some IsDir" and fs': "fs' = fs\<lparr>tree := put b (File c) (tree fs)\<rparr>"
    by (rule os_WriteFile_Inr)
  from b(1) resolve_child_Inr [OF assms(1,2)] obtain a where
    a: "resolve fs p = Inr a" "stat (tree fs) a = Some IsDir" "b = a @ [n]" by blast
  show "cwd fs' = cwd fs" using fs' by simp
  have t': "tree fs' = put (a @ [n]) (File c) (tree fs)" using fs' a(3) by simp
  have nd: "stat (tree fs) (a @ [n]) \<noteq> Some IsDir" using b(2) a(3) by simp
  have st: "\<And>q. stat (tree fs') q = (if q = a @ [n] then Some (IsFile c) else stat (tree fs) q)"
    unfolding t' using a(2) nd by (rule stat_put_file)
  with a(1,2) show "\<exists>a. resolve fs p = Inr a \<and> stat (tree fs) a = Some IsDir
            \<and> (\<forall>q. stat (tree fs') q
                   = (if q = a @ [n] then Some (IsFile c) else stat (tree fs) q))"
    by blast
  show "same_dirs (tree fs) (tree fs')"
    unfolding same_dirs_def
  proof
    fix q
    show "(stat (tree fs) q = Some IsDir) = (stat (tree fs') q = Some IsDir)"
      using st [of q] nd by (cases "q = a @ [n]") simp_all
  qed
qed


lemma entry_after_write:
  assumes "cleaned p" and "plain n" and "os_WriteFile fs (filepath_Join [p, n]) c = Inr fs'"
  shows "entry fs' p2 n2
           = (if resolve fs p2 = resolve fs p \<and> n2 = n then Some (IsFile c) else entry fs p2 n2)"
proof -
  from os_WriteFile_child [OF assms] obtain a where
    cw: "cwd fs' = cwd fs" and a: "resolve fs p = Inr a"
    and st: "\<And>q. stat (tree fs') q = (if q = a @ [n] then Some (IsFile c) else stat (tree fs) q)"
    and sd: "same_dirs (tree fs) (tree fs')"
    by blast
  show ?thesis
  proof (cases "resolve fs p2")
    case (Inl e)
    then have "\<forall>b. resolve fs' p2 \<noteq> Inr b"
      using resolve_same_dirs [OF sd cw, of p2] by simp
    then have "entry fs' p2 n2 = None"
      by (cases "resolve fs' p2") (simp_all add: entry_def)
    with Inl a show ?thesis by (simp add: entry_def)
  next
    case (Inr b)
    then have "resolve fs' p2 = Inr b"
      using resolve_same_dirs [OF sd cw, of p2 b] by simp
    with Inr a st show ?thesis by (auto simp: entry_def)
  qed
qed

lemma os_MkdirAll_ok:
  assumes "os_MkdirAll fs p = (None, fs')"
  shows "cwd fs' = cwd fs" and "grows (tree fs) (tree fs')"
    and "\<exists>a. resolve fs' p = Inr a \<and> stat (tree fs') a = Some IsDir"
proof -
  from assms have ne: "p \<noteq> []" by (auto simp: os_MkdirAll_def split: if_splits)
  with assms obtain t' where m: "mkdir_walk (tree fs) (start_dir fs p) (split_path p) = (None, t')"
    and fs': "fs' = fs\<lparr>tree := t'\<rparr>"
    by (auto simp: os_MkdirAll_def split: prod.splits)
  show "cwd fs' = cwd fs" using fs' by simp
  show "grows (tree fs) (tree fs')" using mkdir_walk_grows [OF m] fs' by simp
  have "stat (tree fs) (start_dir fs p) = Some IsDir"
    using m split_path_nonempty by (rule mkdir_walk_start)
  from mkdir_walk_target [OF this m] ne fs'
  show "\<exists>a. resolve fs' p = Inr a \<and> stat (tree fs') a = Some IsDir"
    by (auto simp: resolve_def start_dir_def)
qed

lemma os_MkdirAll_grows:
  assumes "os_MkdirAll fs p = (r, fs')"
  shows "cwd fs' = cwd fs \<and> grows (tree fs) (tree fs')"
proof (cases "p = []")
  case True
  with assms show ?thesis by (simp add: os_MkdirAll_def grows_refl)
next
  case False
  obtain r' t' where m: "mkdir_walk (tree fs) (start_dir fs p) (split_path p) = (r', t')"
    by (cases "mkdir_walk (tree fs) (start_dir fs p) (split_path p)")
  with assms False have "fs' = fs\<lparr>tree := t'\<rparr>" by (simp add: os_MkdirAll_def)
  with mkdir_walk_grows [OF m] show ?thesis by simp
qed

section \<open>Storage operations seen through the document directory\<close>

lemma plain_names [simp]: "plain ''index.html''" "plain ''metadata.json''" "plain ''media''"
  by (simp_all add: plain_def)

lemma DocumentExists_iff:
  "cleaned (GetDocumentPath s i) \<Longrightarrow>
   DocumentExists s fs i \<longleftrightarrow> entry fs (GetDocumentPath s i) ''index.html'' \<noteq> None"
proof -
  assume c: "cleaned (GetDocumentPath s i)"
  show ?thesis
  proof (cases "os_Stat fs (GetHTMLPath s i)")
    case (Inl e)
    then have "\<forall>k. entry fs (GetDocumentPath s i) ''index.html'' \<noteq> Some k"
      using os_Stat_child [OF c plain_names(1), of fs] by (simp add: GetHTMLPath_def)
    with Inl show ?thesis by (simp add: DocumentExists_def)
  next
    case (Inr k)
    then have "entry fs (GetDocumentPath s i) ''index.html'' = Some k"
      using os_Stat_child [OF c plain_names(1), of fs k] by (simp add: GetHTMLPath_def)
    with Inr show ?thesis by (simp add: DocumentExists_def)
  qed
qed

lemma ReadMetadata_Inr:
  assumes "cleaned (GetDocumentPath s i)"
  shows "ReadMetadata L s fs i = Inr m
           \<longleftrightarrow> (\<exists>c. entry fs (GetDocumentPath s i) ''metadata.json'' = Some (IsFile c)
                    \<and> json_Unmarshal L c = Some m)"
proof (cases "os_ReadFile fs (GetMetadataPath s i)")
  case (Inl e)
  then have "\<forall>c. entry fs (GetDocumentPath s i) ''metadata.json'' \<noteq> Some (IsFile c)"
    using os_ReadFile_child [OF assms plain_names(2), of fs] by (simp add: GetMetadataPath_def)
  with Inl show ?thesis by (simp add: ReadMetadata_def)
next
  case (Inr c)
  then have "entry fs (GetDocumentPath s i) ''metadata.json'' = Some (IsFile c)"
    using os_ReadFile_child [OF assms plain_names(2), of fs c] by (simp add: GetMetadataPath_def)
  with Inr show ?thesis
    by (cases "json_Unmarshal L c") (simp_all add: ReadMetadata_def)
qed

lemma os_ReadFile_html:
  assumes "cleaned (GetDocumentPath s i)"
  shows "os_ReadFile fs (GetHTMLPath s i) = Inr h
           \<longleftrightarrow> entry fs (GetDocumentPath s i) ''index.html'' = Some (IsFile h)"
  using os_ReadFile_child [OF assms plain_names(1), of fs h] by (simp add: GetHTMLPath_def)

lemma GetDocument_Inr:
  assumes "cleaned (GetDocumentPath s i)"
  shows "Storage_GetDocument L s fs i = Inr d
           \<longleftrightarrow> (\<exists>h c m. entry fs (GetDocumentPath s i) ''index.html'' = Some (IsFile h)
                  \<and> entry fs (GetDocumentPath s i) ''metadata.json'' = Some (IsFile c)
                  \<and> json_Unmarshal L c = Some m
                  \<and> d = \<lparr>ID = i, Name = meta_Name m, HTMLContent = h,
                          CreatedAt = meta_CreatedAt m, UpdatedAt = meta_UpdatedAt m\<rparr>)"
proof
  assume g: "Storage_GetDocument L s fs i = Inr d"
  then have ex: "DocumentExists s fs i"
    by (auto simp: Storage_GetDocument_def split: if_splits)
  from g ex obtain h where h: "os_ReadFile fs (GetHTMLPath s i) = Inr h"
    by (cases "os_ReadFile fs (GetHTMLPath s i)") (simp_all add: Storage_GetDocument_def)
  from g ex h obtain m where m: "ReadMetadata L s fs i = Inr m"
    by (cases "ReadMetadata L s fs i") (simp_all add: Storage_GetDocument_def)
  from g ex h m have d: "d = \<lparr>ID = i, Name = meta_Name m, HTMLContent = h,
      CreatedAt = meta_CreatedAt m, UpdatedAt = meta_UpdatedAt m\<rparr>"
    by (simp add: Storage_GetDocument_def)
  from h have "entry fs (GetDocumentPath s i) ''index.html'' = Some (IsFile h)"
    by (simp add: os_ReadFile_html [OF assms])
  moreover from m obtain c where
    "entry fs (GetDocumentPath s i) ''metadata.json'' = Some (IsFile c)" "json_Unmarshal L c = Some m"
    unfolding ReadMetadata_Inr [OF assms] by blast
  ultimately show "\<exists>h c m. entry fs (GetDocumentPath s i) ''index.html'' = Some (IsFile h)
                  \<and> entry fs (GetDocumentPath s i) ''metadata.json'' = Some (IsFile c)
                  \<and> json_Unmarshal L c = Some m
                  \<and> d = \<lparr>ID = i, Name = meta_Name m, HTMLContent = h,
                          CreatedAt = meta_CreatedAt m, UpdatedAt = meta_UpdatedAt m\<rparr>"
    using d by blast
next
  assume "\<exists>h c m. entry fs (GetDocumentPath s i) ''index.html'' = Some (IsFile h)
                  \<and> entry fs (GetDocumentPath s i) ''metadata.json'' = Some (IsFile c)
                  \<and> json_Unmarshal L c = Some m
                  \<and> d = \<lparr>ID = i, Name = meta_Name m, HTMLContent = h,
                          CreatedAt = meta_CreatedAt m, UpdatedAt = meta_UpdatedAt m\<rparr>"
  then obtain h c m where h: "entry fs (GetDocumentPath s i) ''index.html'' = Some (IsFile h)"
    and c: "entry fs (GetDocumentPath s i) ''metadata.json'' = Some (IsFile c)"
    and m: "json_Unmarshal L c = Some m"
    and d: "d = \<lparr>ID = i, Name = meta_Name m, HTMLContent = h,
                          CreatedAt = meta_CreatedAt m, UpdatedAt = meta_UpdatedAt m\<rparr>"
    by blast
  have "DocumentExists s fs i" using h by (simp add: DocumentExists_iff [OF assms])
  moreover have "os_ReadFile fs (GetHTMLPath s i) = Inr h"
    using h by (simp add: os_ReadFile_html [OF assms])
  moreover have "ReadMetadata L s fs i = Inr m"
    unfolding ReadMetadata_Inr [OF assms] using c m by blast
  ultimately show "Storage_GetDocument L s fs i = Inr d"
    using d by (simp add: Storage_GetDocument_def)
qed

lemma WriteMetadata_None:
  assumes "WriteMetadata L s fs i m = (None, fs')"
  obtains c where "json_MarshalIndent L m = Some c"
    and "os_WriteFile fs (GetMetadataPath s i) c = Inr fs'"
proof (cases "json_MarshalIndent L m")
  case None
  with assms show ?thesis by (simp add: WriteMetadata_def)
next
  case (Some c)
  with assms have "os_WriteFile fs (GetMetadataPath s i) c = Inr fs'"
    by (cases "os_WriteFile fs (GetMetadataPath s i) c") (simp_all add: WriteMetadata_def)
  with Some show ?thesis by (rule that)
qed

text \<open>What a successful write of the body followed by the sidecar leaves behind.\<close>

lemma write_body_and_sidecar:
  assumes cl: "cleaned (GetDocumentPath s i)"
    and w1: "os_WriteFile fs (GetHTMLPath s i) h = Inr fs1"
    and w2: "WriteMetadata L s fs1 i m = (None, fs2)"
  shows "cwd fs2 = cwd fs"
    and "entry fs2 (GetDocumentPath s i) ''index.html'' = Some (IsFile h)"
    and "\<exists>c. json_MarshalIndent L m = Some c
            \<and> entry fs2 (GetDocumentPath s i) ''metadata.json'' = Some (IsFile c)"
    and "same_dirs (tree fs) (tree fs2)"
proof -
  let ?p = "GetDocumentPath s i"
  from w1 have w1': "os_WriteFile fs (filepath_Join [?p, ''index.html'']) h = Inr fs1"
    by (simp add: GetHTMLPath_def)
  from w2 obtain c where c: "json_MarshalIndent L m = Some c"
    and w2': "os_WriteFile fs1 (filepath_Join [?p, ''metadata.json'']) c = Inr fs2"
    by (rule WriteMetadata_None) (simp add: GetMetadataPath_def)
  have e1: "entry fs1 ?p ''index.html'' = Some (IsFile h)"
    using entry_after_write [OF cl plain_names(1) w1', of ?p "''index.html''"] by simp
  have "entry fs2 ?p ''index.html'' = entry fs1 ?p ''index.html''"
    using entry_after_write [OF cl plain_names(2) w2', of ?p "''index.html''"] by simp
  with e1 show "entry fs2 ?p ''index.html'' = Some (IsFile h)" by simp
  have "entry fs2 ?p ''metadata.json'' = Some (IsFile c)"
    using entry_after_write [OF cl plain_names(2) w2', of ?p "''metadata.json''"] by simp
  with c show "\<exists>c. json_MarshalIndent L m = Some c
            \<and> entry fs2 ?p ''metadata.json'' = Some (IsFile c)" by blast
  show "cwd fs2 = cwd fs"
    using os_WriteFile_child(1) [OF cl plain_names(1) w1']
      os_WriteFile_child(1) [OF cl plain_names(2) w2'] by simp
  show "same_dirs (tree fs) (tree fs2)"
    using os_WriteFile_child(3) [OF cl plain_names(1) w1']
      os_WriteFile_child(3) [OF cl plain_names(2) w2'] by (simp add: same_dirs_def)
qed

lemma Storage_UpdateDocument_None:
  assumes "Storage_UpdateDocument L s fs doc = (None, fs')"
  obtains fs1 where "DocumentExists s fs (ID doc)"
    and "os_WriteFile fs (GetHTMLPath s (ID doc)) (HTMLContent doc) = Inr fs1"
    and "WriteMetadata L s fs1 (ID doc) (metadata_of doc) = (None, fs')"
proof -
  from assms have ex: "DocumentExists s fs (ID doc)"
    by (auto simp: Storage_UpdateDocument_def split: if_splits)
  from assms ex obtain fs1 where
    w1: "os_WriteFile fs (GetHTMLPath s (ID doc)) (HTMLContent doc) = Inr fs1"
    by (cases "os_WriteFile fs (GetHTMLPath s (ID doc)) (HTMLContent doc)")
      (simp_all add: Storage_UpdateDocument_def)
  obtain r fs2 where w: "WriteMetadata L s fs1 (ID doc) (metadata_of doc) = (r, fs2)"
    by (cases "WriteMetadata L s fs1 (ID doc) (metadata_of doc)")
  with assms ex w1 have "r = None \<and> fs2 = fs'"
    by (cases r) (simp_all add: Storage_UpdateDocument_def)
  with w have "WriteMetadata L s fs1 (ID doc) (metadata_of doc) = (None, fs')" by simp
  with ex w1 show ?thesis by (rule that)
qed

lemma Storage_CreateDocument_None:
  assumes "Storage_CreateDocument L s fs doc = (None, fs')"
  obtains fs1 fs2 fs3 where "os_MkdirAll fs (GetDocumentPath s (ID doc)) = (None, fs1)"
    and "os_MkdirAll fs1 (GetMediaDir s (ID doc)) = (None, fs2)"
    and "os_WriteFile fs2 (GetHTMLPath s (ID doc)) (HTMLContent doc) = Inr fs3"
    and "WriteMetadata L s fs3 (ID doc) (metadata_of doc) = (None, fs')"
proof -
  obtain r1 fs1 where m1: "os_MkdirAll fs (GetDocumentPath s (ID doc)) = (r1, fs1)"
    by (cases "os_MkdirAll fs (GetDocumentPath s (ID doc))")
  with assms have r1: "r1 = None" by (cases r1) (simp_all add: Storage_CreateDocument_def)
  obtain r2 fs2 where m2: "os_MkdirAll fs1 (GetMediaDir s (ID doc)) = (r2, fs2)"
    by (cases "os_MkdirAll fs1 (GetMediaDir s (ID doc))")
  with assms m1 r1 have r2: "r2 = None"
    by (cases r2) (simp_all add: Storage_CreateDocument_def)
  from assms m1 r1 m2 r2 obtain fs3 where
    w1: "os_WriteFile fs2 (GetHTMLPath s (ID doc)) (HTMLContent doc) = Inr fs3"
    by (cases "os_WriteFile fs2 (GetHTMLPath s (ID doc)) (HTMLContent doc)")
      (simp_all add: Storage_CreateDocument_def)
  obtain r4 fs4 where w: "WriteMetadata L s fs3 (ID doc) (metadata_of doc) = (r4, fs4)"
    by (cases "WriteMetadata L s fs3 (ID doc) (metadata_of doc)")
  with assms m1 r1 m2 r2 w1 have "r4 = None \<and> fs4 = fs'"
    by (cases r4) (simp_all add: Storage_CreateDocument_def)
  with w have "WriteMetadata L s fs3 (ID doc) (metadata_of doc) = (None, fs')" by simp
  with m1 r1 m2 r2 w1 show ?thesis by (intro that) simp_all
qed

section \<open>Properties of the document service\<close>

definition round_trips :: "lib \<Rightarrow> Metadata \<Rightarrow> bool" where
  "round_trips L m =
     (case json_MarshalIndent L m of None \<Rightarrow> False | Some c \<Rightarrow> json_Unmarshal L c = Some m)"

lemma filepath_Clean_nonempty: "filepath_Clean p \<noteq> []"
proof (cases "p = []")
  case True
  then show ?thesis by (simp add: filepath_Clean_def)
next
  case False
  then show ?thesis
    using cleaned_Clean [of p] cleaned_nonempty by blast
qed

lemma docpath_cleaned: "rootDir s \<noteq> [] \<or> i \<noteq> [] \<Longrightarrow> cleaned (GetDocumentPath s i)"
proof -
  assume ne: "rootDir s \<noteq> [] \<or> i \<noteq> []"
  have "filepath_Join [rootDir s, i] \<noteq> []"
  proof (cases "rootDir s = []")
    case True
    with ne show ?thesis by (simp add: filepath_Join_def filepath_Clean_nonempty)
  next
    case False
    then show ?thesis by (simp add: filepath_Join_def filepath_Clean_nonempty)
  qed
  then show ?thesis unfolding GetDocumentPath_def by (rule cleaned_Join)
qed


lemma GenerateDocumentID_nonempty: "GenerateDocumentID f name ex rnd \<noteq> []"
  using GenerateDocumentID_cases [of f name ex rnd] slug_portion_nonempty [of f name]
  by (auto simp: candidate_def)

lemma Service_CreateDocument_Inr:
  assumes "Service_CreateDocument L s fs name html now rnd = (Inr doc, fs')"
  shows "name \<noteq> []" and "html \<noteq> []"
    and "doc = \<lparr>ID = GenerateDocumentID (slug_Make L) name (DocumentExists s fs) rnd,
                 Name = name, HTMLContent = html, CreatedAt = now, UpdatedAt = now\<rparr>"
    and "Storage_CreateDocument L s fs doc = (None, fs')"
proof -
  show n: "name \<noteq> []" using assms by (auto simp: Service_CreateDocument_def split: if_splits)
  show h: "html \<noteq> []" using assms by (auto simp: Service_CreateDocument_def split: if_splits)
  let ?d = "\<lparr>ID = GenerateDocumentID (slug_Make L) name (DocumentExists s fs) rnd,
                 Name = name, HTMLContent = html, CreatedAt = now, UpdatedAt = now\<rparr>"
  obtain r fs1 where c: "Storage_CreateDocument L s fs ?d = (r, fs1)"
    by (cases "Storage_CreateDocument L s fs ?d")
  with assms n h have "r = None \<and> fs1 = fs' \<and> doc = ?d"
    by (cases r) (simp_all add: Service_CreateDocument_def Let_def)
  with c show "doc = ?d" and "Storage_CreateDocument L s fs doc = (None, fs')" by simp_all
qed

lemma created_document_stored:
  assumes "Storage_CreateDocument L s fs doc = (None, fs')" and "ID doc \<noteq> []"
  shows "entry fs' (GetDocumentPath s (ID doc)) ''index.html'' = Some (IsFile (HTMLContent doc))"
    and "\<exists>c. json_MarshalIndent L (metadata_of doc) = Some c
            \<and> entry fs' (GetDocumentPath s (ID doc)) ''metadata.json'' = Some (IsFile c)"
proof -
  have cl: "cleaned (GetDocumentPath s (ID doc))" using assms(2) by (simp add: docpath_cleaned)
  from assms(1) obtain fs1 fs2 fs3 where
    w1: "os_WriteFile fs2 (GetHTMLPath s (ID doc)) (HTMLContent doc) = Inr fs3"
    and w2: "WriteMetadata L s fs3 (ID doc) (metadata_of doc) = (None, fs')"
    by (rule Storage_CreateDocument_None)
  show "entry fs' (GetDocumentPath s (ID doc)) ''index.html'' = Some (IsFile (HTMLContent doc))"
    using cl w1 w2 by (rule write_body_and_sidecar(2))
  show "\<exists>c. json_MarshalIndent L (metadata_of doc) = Some c
            \<and> entry fs' (GetDocumentPath s (ID doc)) ''metadata.json'' = Some (IsFile c)"
    using cl w1 w2 by (rule write_body_and_sidecar(3))
qed

lemma created_document_exists:
  assumes "Service_CreateDocument L s fs name html now rnd = (Inr doc, fs')"
  shows "DocumentExists s fs' (ID doc)"
proof -
  note c = Service_CreateDocument_Inr [OF assms]
  have ne: "ID doc \<noteq> []" using c(3) GenerateDocumentID_nonempty by simp
  then have cl: "cleaned (GetDocumentPath s (ID doc))" by (simp add: docpath_cleaned)
  from created_document_stored(1) [OF c(4) ne] show ?thesis
    by (simp add: DocumentExists_iff [OF cl])
qed

lemma created_id_valid:
  assumes "Service_CreateDocument L s fs name html now rnd = (Inr doc, fs')"
    and "\<exists>k<100. \<not> DocumentExists s fs (candidate (slug_portion (slug_Make L) name) rnd k)"
  shows "ValidateDocumentID (ID doc)"
proof -
  note c = Service_CreateDocument_Inr [OF assms(1)]
  from assms(2) GenerateDocumentID_cases [of "slug_Make L" name "DocumentExists s fs" rnd]
  obtain k where "ID doc = candidate (slug_portion (slug_Make L) name) rnd k"
    using c(3) by auto
  then show ?thesis
    using slug_portion_length [of "slug_Make L" name] suffix_length [of "rnd k"]
    by (simp add: ValidateDocumentID_def candidate_def MaxSlugLength_def SuffixLength_def)
qed

text \<open>
  C4. Round trip: when \<open>createDocument\<close> on a non-empty name and non-empty HTML returns a
  document, and the JSON codec reads back the metadata record it wrote, then getting the
  returned ID yields a document whose name and HTML content are the inputs and whose
  creation and update times are equal.
\<close>

theorem create_get_round_trip:
  assumes "name \<noteq> []" and "html \<noteq> []"
    and "Service_CreateDocument L s fs name html now rnd = (Inr doc, fs')"
    and "round_trips L \<lparr>meta_Name = name, meta_CreatedAt = now, meta_UpdatedAt = now\<rparr>"
  shows "\<exists>d. Storage_GetDocument L s fs' (ID doc) = Inr d
           \<and> Name d = name \<and> HTMLContent d = html \<and> CreatedAt d = UpdatedAt d \<and> d = doc"
proof -
  note c = Service_CreateDocument_Inr [OF assms(3)]
  have ne: "ID doc \<noteq> []" using c(3) GenerateDocumentID_nonempty by simp
  then have cl: "cleaned (GetDocumentPath s (ID doc))" by (simp add: docpath_cleaned)
  have m: "metadata_of doc = \<lparr>meta_Name = name, meta_CreatedAt = now, meta_UpdatedAt = now\<rparr>"
    using c(3) by (simp add: metadata_of_def)
  from created_document_stored [OF c(4) ne] obtain cc where
    h: "entry fs' (GetDocumentPath s (ID doc)) ''index.html'' = Some (IsFile (HTMLContent doc))"
    and mc: "json_MarshalIndent L (metadata_of doc) = Some cc"
    and e: "entry fs' (GetDocumentPath s (ID doc)) ''metadata.json'' = Some (IsFile cc)"
    by blast
  have u: "json_Unmarshal L cc = Some (metadata_of doc)"
    using assms(4) mc m by (simp add: round_trips_def)
  have "doc = \<lparr>ID = ID doc, Name = meta_Name (metadata_of doc), HTMLContent = HTMLContent doc,
      CreatedAt = meta_CreatedAt (metadata_of doc), UpdatedAt = meta_UpdatedAt (metadata_of doc)\<rparr>"
    by (simp add: metadata_of_def)
  with h e u have "Storage_GetDocument L s fs' (ID doc) = Inr doc"
    unfolding GetDocument_Inr [OF cl] by blast
  with c(3) show ?thesis by simp
qed

text \<open>
  C10. The media type only gates validation: with \<open>image\<close> and with \<open>video\<close> the service
  returns the same relative path and leaves the same files behind.
\<close>

theorem add_media_type_irrelevant:
  "AddMedia s fs documentID sourcePath ''image'' = AddMedia s fs documentID sourcePath ''video''"
  by (simp add: AddMedia_def)

lemma entry_resolved: "entry fs p n = Some k \<Longrightarrow> \<exists>a. resolve fs p = Inr a \<and> stat (tree fs) (a @ [n]) = Some k"
  by (cases "resolve fs p") (simp_all add: entry_def)





subsection \<open>A worked example\<close>

definition demo_doc :: Document where
  "demo_doc = \<lparr>ID = ''my-report-a3f9'', Name = ''my-report'', HTMLContent = ''<h1>Hi</h1>'',
                CreatedAt = 3, UpdatedAt = 3\<rparr>"

definition demo_fs1 :: filesys where
  "demo_fs1 =
     \<lparr>tree = Dir [(''docs'', Dir [(''my-report-a3f9'',
                 Dir [(''media'', Dir []),
                      (''index.html'', File ''<h1>Hi</h1>''),
                      (''metadata.json'', File ''ccc|uuu|my-report'')])]),
                 (''tmp'', Dir [(''pic.png'', File ''PNG'')])],
      cwd = [''tmp'']\<rparr>"

lemma demo_create:
  "Service_CreateDocument demo_lib demo_storage demo_fs ''my-report'' ''<h1>Hi</h1>'' 3
     (rand_const 0xa3 0xf9 0x10) = (Inr demo_doc, demo_fs1)"
  by code_simp


lemma demo_missing: "\<not> DocumentExists demo_storage demo_fs ''my-report-a3f9''"
  by code_simp

lemma demo_valid: "ValidateDocumentID ''my-report-a3f9''"
  by code_simp

lemma demo_round_trips:
  "round_trips demo_lib \<lparr>meta_Name = ''my-report'', meta_CreatedAt = 3, meta_UpdatedAt = 3\<rparr>"
  "round_trips demo_lib (metadata_of (demo_doc\<lparr>HTMLContent := ''<p>v2</p>'', UpdatedAt := 5\<rparr>))"
  "round_trips demo_lib (metadata_of (demo_doc\<lparr>HTMLContent := ''<p>v2</p>'', UpdatedAt := 8\<rparr>))"
  by code_simp+

theorem create_get_round_trip_witness:
  "''my-report'' \<noteq> [] \<and> ''<h1>Hi</h1>'' \<noteq> []
   \<and> Service_CreateDocument demo_lib demo_storage demo_fs ''my-report'' ''<h1>Hi</h1>'' 3
        (rand_const 0xa3 0xf9 0x10) = (Inr demo_doc, demo_fs1)
   \<and> round_trips demo_lib \<lparr>meta_Name = ''my-report'', meta_CreatedAt = 3, meta_UpdatedAt = 3\<rparr>
   \<and> (\<exists>d. Storage_GetDocument demo_lib demo_storage demo_fs1 (ID demo_doc) = Inr d
          \<and> Name d = ''my-report'' \<and> HTMLContent d = ''<h1>Hi</h1>''
          \<and> CreatedAt d = UpdatedAt d \<and> d = demo_doc)"
  using create_get_round_trip [OF _ _ demo_create demo_round_trips(1)] demo_create
    demo_round_trips(1)
  by simp


section \<open>Deleting and listing\<close>

lemma os_RemoveAll_None:
  assumes "os_RemoveAll fs p = (None, fs')" and "resolve fs p = Inr a" and "p \<noteq> []"
  shows "a \<noteq> [] \<and> fs' = fs\<lparr>tree := remove a (tree fs)\<rparr>"
proof (cases "endsWithDot p")
  case True
  with assms show ?thesis by (simp add: os_RemoveAll_def)
next
  case False
  with assms show ?thesis
    by (cases "a = []") (simp_all add: os_RemoveAll_def)
qed

lemma DeleteDocument_None:
  assumes "DeleteDocument s fs i = (None, fs')"
  shows "DocumentExists s fs i" and "os_RemoveAll fs (GetDocumentPath s i) = (None, fs')"
proof -
  show ex: "DocumentExists s fs i"
    using assms by (auto simp: DeleteDocument_def split: if_splits)
  obtain r fs1 where r: "os_RemoveAll fs (GetDocumentPath s i) = (r, fs1)"
    by (cases "os_RemoveAll fs (GetDocumentPath s i)")
  with assms ex have "r = None \<and> fs1 = fs'"
    by (cases r) (simp_all add: DeleteDocument_def)
  with r show "os_RemoveAll fs (GetDocumentPath s i) = (None, fs')" by simp
qed

lemma deleted_entry:
  assumes cl: "cleaned p" and rm: "os_RemoveAll fs p = (None, fs')"
    and e: "entry fs p n0 \<noteq> None"
  shows "entry fs' p n = None"
proof -
  from e obtain a where a: "resolve fs p = Inr a"
    by (cases "resolve fs p") (simp_all add: entry_def)
  from os_RemoveAll_None [OF rm a cleaned_nonempty [OF cl]]
  have ne: "a \<noteq> []" and fs': "fs' = fs\<lparr>tree := remove a (tree fs)\<rparr>" by simp_all
  show ?thesis
  proof (cases "resolve fs' p")
    case (Inl x)
    then show ?thesis by (simp add: entry_def)
  next
    case (Inr b)
    have "cwd fs' = cwd fs" using fs' by simp
    from resolve_cwd [OF a this Inr] have b: "b = a" .
    have "a = butlast a @ [last a]" using ne by simp
    moreover have "prefix a (a @ [n])" by simp
    ultimately have "stat (remove a (tree fs)) (a @ [n]) = None"
      using stat_remove_below [of "butlast a" "last a" "a @ [n]" "tree fs"] by simp
    with Inr b fs' show ?thesis by (simp add: entry_def)
  qed
qed

lemma list_loop_exists:
  "d \<in> set (list_loop L s fs entries docs) \<Longrightarrow>
   d \<in> set docs \<or> DocumentExists s fs (info_ID d)"
proof (induction entries arbitrary: docs)
  case Nil
  then show ?case by simp
next
  case (Cons e entries)
  obtain n isDir where e: "e = (n, isDir)" by (cases e)
  show ?case
  proof (cases "isDir \<and> DocumentExists s fs n")
    case False
    with Cons.prems e have "d \<in> set (list_loop L s fs entries docs)"
      by (auto split: if_splits)
    then show ?thesis by (rule Cons.IH)
  next
    case True
    show ?thesis
    proof (cases "ReadMetadata L s fs n")
      case (Inl x)
      with Cons.prems e True have "d \<in> set (list_loop L s fs entries docs)" by simp
      then show ?thesis by (rule Cons.IH)
    next
      case (Inr m)
      let ?info = "\<lparr>info_ID = n, info_Name = meta_Name m,
                          info_CreatedAt = meta_CreatedAt m,
                          info_UpdatedAt = meta_UpdatedAt m,
                          info_FilePath = filepath_Join [n, ''index.html'']\<rparr>"
      from Cons.prems e True Inr
      have "d \<in> set (list_loop L s fs entries (docs @ [?info]))" by simp
      from Cons.IH [OF this] True show ?thesis by auto
    qed
  qed
qed

lemma ListDocuments_exists:
  "ListDocuments L s fs = Inr docs \<Longrightarrow> d \<in> set docs \<Longrightarrow> DocumentExists s fs (info_ID d)"
proof -
  assume l: "ListDocuments L s fs = Inr docs" and d: "d \<in> set docs"
  from l obtain entries where "docs = list_loop L s fs entries []"
    by (cases "os_ReadDir fs (rootDir s)") (auto simp: ListDocuments_def)
  with d list_loop_exists [of d L s fs entries "[]"] show ?thesis by simp
qed

text \<open>
  C9. Deleting fails with a not-found error when the document's HTML body does not exist.
  After a successful delete the document does not exist, getting it reports not-found (at
  the storage engine, and at the service for a well-formed ID), and no listing contains
  its ID. The storage has a root directory or the ID is not empty, so that the document
  directory is a path.
\<close>

theorem delete_document:
  assumes "rootDir s \<noteq> [] \<or> i \<noteq> []"
  shows "(\<not> DocumentExists s fs i
            \<longrightarrow> DeleteDocument s fs i = (Some (ErrNotExist i), fs)
              \<and> classify (ErrNotExist i) = NotFoundError)
       \<and> (DeleteDocument s fs i = (None, fs')
            \<longrightarrow> \<not> DocumentExists s fs' i
              \<and> Storage_GetDocument L s fs' i = Inl (ErrNotExist i)
              \<and> (ValidateDocumentID i
                   \<longrightarrow> Service_GetDocument L s fs' i
                         = Inl (Wrap ''failed to get document'' (ErrNotExist i)))
              \<and> (\<forall>docs. ListDocuments L s fs' = Inr docs \<longrightarrow> i \<notin> info_ID ` set docs))"
proof (intro conjI impI allI)
  assume "\<not> DocumentExists s fs i"
  then show "DeleteDocument s fs i = (Some (ErrNotExist i), fs)"
    by (simp add: DeleteDocument_def)
next
  show "classify (ErrNotExist i) = NotFoundError" by simp
next
  assume del: "DeleteDocument s fs i = (None, fs')"
  have cl: "cleaned (GetDocumentPath s i)" using assms by (rule docpath_cleaned)
  note d = DeleteDocument_None [OF del]
  have "entry fs (GetDocumentPath s i) ''index.html'' \<noteq> None"
    using d(1) by (simp add: DocumentExists_iff [OF cl])
  with cl d(2) have "entry fs' (GetDocumentPath s i) ''index.html'' = None"
    by (rule deleted_entry)
  then show gone: "\<not> DocumentExists s fs' i" by (simp add: DocumentExists_iff [OF cl])
  then show get: "Storage_GetDocument L s fs' i = Inl (ErrNotExist i)"
    by (simp add: Storage_GetDocument_def)
  {
    assume "ValidateDocumentID i"
    with get show "Service_GetDocument L s fs' i
        = Inl (Wrap ''failed to get document'' (ErrNotExist i))"
      by (simp add: Service_GetDocument_def)
  }
  {
    fix docs
    assume "ListDocuments L s fs' = Inr docs"
    with gone ListDocuments_exists [of L s fs' docs] show "i \<notin> info_ID ` set docs" by auto
  }
qed

lemma demo_delete: "DeleteDocument demo_storage demo_fs1 ''my-report-a3f9'' = (None, demo_fs)"
  by code_simp

lemma demo_list_empty: "ListDocuments demo_lib demo_storage demo_fs = Inr []"
  by code_simp

theorem delete_document_witness:
  "rootDir demo_storage \<noteq> []
   \<and> \<not> DocumentExists demo_storage demo_fs ''my-report-a3f9''
   \<and> DeleteDocument demo_storage demo_fs ''my-report-a3f9''
        = (Some (ErrNotExist ''my-report-a3f9''), demo_fs)
   \<and> DeleteDocument demo_storage demo_fs1 ''my-report-a3f9'' = (None, demo_fs)
   \<and> Storage_GetDocument demo_lib demo_storage demo_fs ''my-report-a3f9''
        = Inl (ErrNotExist ''my-report-a3f9'')
   \<and> ValidateDocumentID ''my-report-a3f9''
   \<and> Service_GetDocument demo_lib demo_storage demo_fs ''my-report-a3f9''
        = Inl (Wrap ''failed to get document'' (ErrNotExist ''my-report-a3f9''))
   \<and> ListDocuments demo_lib demo_storage demo_fs = Inr []
   \<and> ''my-report-a3f9'' \<notin> info_ID ` set []"
proof -
  have r0: "rootDir demo_storage \<noteq> []" by (simp add: demo_storage_def)
  then have r: "rootDir demo_storage \<noteq> [] \<or> ''my-report-a3f9'' \<noteq> []" by simp
  note a = delete_document [OF r, of demo_fs demo_fs demo_lib]
  note b = delete_document [OF r, of demo_fs1 demo_fs demo_lib]
  from a demo_missing have
    "DeleteDocument demo_storage demo_fs ''my-report-a3f9''
        = (Some (ErrNotExist ''my-report-a3f9''), demo_fs)" by simp
  moreover from b demo_delete demo_valid have
    "Storage_GetDocument demo_lib demo_storage demo_fs ''my-report-a3f9''
        = Inl (ErrNotExist ''my-report-a3f9'')"
    "Service_GetDocument demo_lib demo_storage demo_fs ''my-report-a3f9''
        = Inl (Wrap ''failed to get document'' (ErrNotExist ''my-report-a3f9''))"
    by simp_all
  ultimately show ?thesis
    using r0 demo_missing demo_delete demo_valid demo_list_empty by simp
qed

section \<open>Identifiers produced by the fallback\<close>

definition taken_fs :: filesys where
  "taken_fs =
     \<lparr>tree = Dir [(''docs'', Dir [(''minutes-of-the-board-meeting-0003'',
                 Dir [(''media'', Dir []),
                      (''index.html'', File ''<p>old</p>''),
                      (''metadata.json'', File ''c|u|minutes-of-the-board-meeting'')])])],
      cwd = []\<rparr>"

definition taken_doc :: Document where
  "taken_doc = \<lparr>ID = ''minutes-of-the-board-meeting-00030003'',
                 Name = ''minutes-of-the-board-meeting'', HTMLContent = ''<p>new</p>'',
                 CreatedAt = 2, UpdatedAt = 2\<rparr>"

definition taken_fs1 :: filesys where
  "taken_fs1 =
     \<lparr>tree = Dir [(''docs'', Dir [(''minutes-of-the-board-meeting-0003'',
                 Dir [(''media'', Dir []),
                      (''index.html'', File ''<p>old</p>''),
                      (''metadata.json'', File ''c|u|minutes-of-the-board-meeting'')]),
                (''minutes-of-the-board-meeting-00030003'',
                 Dir [(''media'', Dir []),
                      (''index.html'', File ''<p>new</p>''),
                      (''metadata.json'', File ''cc|uu|minutes-of-the-board-meeting'')])])],
      cwd = []\<rparr>"

lemma taken_exists: "DocumentExists demo_storage taken_fs ''minutes-of-the-board-meeting-0003''"
  by code_simp

lemma taken_generate:
  "GenerateDocumentID slug_unchanged ''minutes-of-the-board-meeting''
     (DocumentExists demo_storage taken_fs) rand_unavailable
     = ''minutes-of-the-board-meeting-00030003''"
proof -
  have s: "slug_portion slug_unchanged ''minutes-of-the-board-meeting''
             = ''minutes-of-the-board-meeting''"
    by (simp add: slug_portion_def slug_unchanged_def Let_def MaxSlugLength_def)
  have x: "generateRandomSuffix None = ''0003''"
    by (simp add: generateRandomSuffix_def fmt_04x_def SuffixLength_def hextable_def)
  have "\<And>j. DocumentExists demo_storage taken_fs
      (candidate ''minutes-of-the-board-meeting'' rand_unavailable j)"
    using taken_exists by (simp add: candidate_def rand_unavailable_def x)
  then have "unique_loop ''minutes-of-the-board-meeting'' (DocumentExists demo_storage taken_fs)
      rand_unavailable 0
      = ''minutes-of-the-board-meeting'' @ ''-''
          @ generateRandomSuffix (rand_unavailable 100)
          @ generateRandomSuffix (rand_unavailable 101)"
    by (intro unique_loop_fallback)
  then show ?thesis
    by (simp add: GenerateDocumentID_def s rand_unavailable_def x)
qed

lemma taken_store:
  "Storage_CreateDocument demo_lib demo_storage taken_fs taken_doc = (None, taken_fs1)"
  by code_simp

text \<open>
  C1, at an input where the claim fails. The storage holds a document named
  \<open>minutes-of-the-board-meeting-0003\<close> and every read of the random source fails, so each
  of the 100 candidates is that existing ID and the fallback returns the slug with two
  suffix draws: 37 characters. Creation succeeds and the document exists, but its ID
  fails \<open>ValidateDocumentID\<close>, and the service refuses to get the document it has just
  created.
\<close>

theorem fallback_id_fails_validation:
  "Service_CreateDocument demo_lib demo_storage taken_fs ''minutes-of-the-board-meeting''
       ''<p>new</p>'' 2 rand_unavailable = (Inr taken_doc, taken_fs1)
   \<and> ID taken_doc = ''minutes-of-the-board-meeting-00030003''
   \<and> length (ID taken_doc) = 37
   \<and> \<not> ValidateDocumentID (ID taken_doc)
   \<and> DocumentExists demo_storage taken_fs1 (ID taken_doc)
   \<and> Service_GetDocument demo_lib demo_storage taken_fs1 (ID taken_doc)
        = Inl (ErrInvalidID (ID taken_doc))"
proof -
  have g: "GenerateDocumentID (slug_Make demo_lib) ''minutes-of-the-board-meeting''
     (DocumentExists demo_storage taken_fs) rand_unavailable
     = ''minutes-of-the-board-meeting-00030003''"
    using taken_generate by (simp add: demo_lib_def)
  have c: "Service_CreateDocument demo_lib demo_storage taken_fs ''minutes-of-the-board-meeting''
       ''<p>new</p>'' 2 rand_unavailable = (Inr taken_doc, taken_fs1)"
    using taken_store by (simp add: Service_CreateDocument_def g Let_def taken_doc_def)
  have i: "ID taken_doc = ''minutes-of-the-board-meeting-00030003''"
    by (simp add: taken_doc_def)
  have v: "\<not> ValidateDocumentID (ID taken_doc)"
    by (simp add: i ValidateDocumentID_def MaxSlugLength_def SuffixLength_def)
  have e: "DocumentExists demo_storage taken_fs1 (ID taken_doc)"
    using created_document_exists [OF c] .
  have "Service_GetDocument demo_lib demo_storage taken_fs1 (ID taken_doc)
        = Inl (ErrInvalidID (ID taken_doc))"
    using v by (simp add: Service_GetDocument_def)
  with c i v e show ?thesis by simp
qed

section \<open>Copying a media file\<close>

lemma last_split_path:
  "last (split_path p) = rev (takeWhile (\<lambda>c. c \<noteq> CHR ''/'') (rev p))"
proof -
  let ?b = "rev (takeWhile (\<lambda>c. c \<noteq> CHR ''/'') (rev p))"
  let ?a = "rev (dropWhile (\<lambda>c. c \<noteq> CHR ''/'') (rev p))"
  have p: "p = ?a @ ?b"
    using takeWhile_dropWhile_id [of "\<lambda>c. c \<noteq> CHR ''/''" "rev p"]
    by (metis rev_append rev_rev_ident)
  have nb: "CHR ''/'' \<notin> set ?b"
    using set_takeWhileD [of "CHR ''/''" "\<lambda>c. c \<noteq> CHR ''/''" "rev p"] by auto
  show ?thesis
  proof (cases "dropWhile (\<lambda>c. c \<noteq> CHR ''/'') (rev p)")
    case Nil
    with p have "p = ?b" by simp
    then have "split_path p = [?b]" using nb split_path_nosep [of ?b] by simp
    then show ?thesis by simp
  next
    case (Cons x xs)
    then have "x = CHR ''/''"
      using hd_dropWhile [of "\<lambda>c. c \<noteq> CHR ''/''" "rev p"] by auto
    with Cons have "?a = rev xs @ [CHR ''/'']" by simp
    with p have "p = rev xs @ CHR ''/'' # ?b" by simp
    then have "split_path p = split_path (rev xs) @ split_path ?b"
      using split_path_append [of "rev xs" ?b] by simp
    also have "split_path ?b = [?b]" using nb by (rule split_path_nosep)
    finally show ?thesis by simp
  qed
qed

lemma filepath_Base_last:
  assumes "last (split_path p) \<noteq> []"
  shows "filepath_Base p = last (split_path p)"
proof -
  let ?t = "takeWhile (\<lambda>c. c \<noteq> CHR ''/'') (rev p)"
  from assms have t: "?t \<noteq> []" by (simp add: last_split_path)
  then have rp: "rev p \<noteq> []" by auto
  then have "hd (rev p) \<noteq> CHR ''/''"
    using t by (cases "rev p") (auto split: if_splits)
  then have "dropWhile (\<lambda>c. c = CHR ''/'') (rev p) = rev p"
    using rp by (cases "rev p") auto
  then show ?thesis
    using rp t by (simp add: filepath_Base_def Let_def last_split_path)
qed

lemma filepath_Base_cases:
  "filepath_Base p = ''.'' \<or> filepath_Base p = ''..'' \<or> filepath_Base p = ''/''
   \<or> plain (filepath_Base p)"
proof (cases "p = []")
  case True
  then show ?thesis by (simp add: filepath_Base_def)
next
  case False
  let ?s = "rev (dropWhile (\<lambda>c. c = CHR ''/'') (rev p))"
  let ?l = "rev (takeWhile (\<lambda>c. c \<noteq> CHR ''/'') (rev ?s))"
  have nl: "CHR ''/'' \<notin> set ?l"
    using set_takeWhileD [of "CHR ''/''" "\<lambda>c. c \<noteq> CHR ''/''" "rev ?s"] by auto
  show ?thesis
  proof (cases "?l = []")
    case True
    with False show ?thesis by (simp add: filepath_Base_def Let_def)
  next
    case ne: False
    with False have "filepath_Base p = ?l" by (simp add: filepath_Base_def Let_def)
    with nl ne show ?thesis by (auto simp: plain_def)
  qed
qed

lemma walk_last:
  "walk t cur cs = Inr a \<Longrightarrow> cs \<noteq> [] \<Longrightarrow>
   stat t a = Some IsDir
   \<or> (last cs \<noteq> [] \<and> last cs \<noteq> ''.'' \<and> last cs \<noteq> ''..'' \<and> (\<exists>b. a = b @ [last cs]))"
proof (induction cs arbitrary: cur)
  case Nil
  then show ?case by simp
next
  case (Cons c cs)
  from Cons.prems(1) have dir: "stat t cur = Some IsDir"
    by (auto split: option.splits kind.splits)
  show ?case
  proof (cases "cs = []")
    case True
    consider (skip) "c = [] \<or> c = ''.''" | (up) "c = ''..''"
      | (name) "c \<noteq> [] \<and> c \<noteq> ''.'' \<and> c \<noteq> ''..''" by blast
    then show ?thesis
    proof cases
      case skip
      with Cons.prems(1) True dir show ?thesis by auto
    next
      case up
      with Cons.prems(1) True dir have "a = butlast cur" by auto
      with stat_butlast_dir [OF dir] show ?thesis by simp
    next
      case name
      with Cons.prems(1) True dir have "a = cur @ [c]" by auto
      with name True show ?thesis by auto
    qed
  next
    case False
    from Cons.prems(1) dir obtain cur' where "walk t cur' cs = Inr a"
      by (auto split: if_splits)
    from Cons.IH [OF this False] False show ?thesis by simp
  qed
qed

lemma resolved_file_base:
  assumes "resolve fs p = Inr a" and "stat (tree fs) a = Some (IsFile d)"
  shows "plain (filepath_Base p) \<and> (\<exists>b. a = b @ [filepath_Base p])"
proof -
  from assms(1) have ne: "p \<noteq> []" and w: "walk (tree fs) (start_dir fs p) (split_path p) = Inr a"
    by (auto simp: resolve_def split: if_splits)
  from walk_last [OF w split_path_nonempty] assms(2)
  have l: "last (split_path p) \<noteq> []" "last (split_path p) \<noteq> ''.''"
    "last (split_path p) \<noteq> ''..''" and b: "\<exists>b. a = b @ [last (split_path p)]"
    by auto
  have "last (split_path p) \<in> set (split_path p)" using split_path_nonempty by simp
  then have "CHR ''/'' \<notin> set (last (split_path p))" by (rule split_path_comps)
  with l b show ?thesis by (simp add: filepath_Base_last plain_def)
qed

lemma Join_media: "plain n \<Longrightarrow> filepath_Join [''media'', n] = ''media/'' @ n"
proof -
  assume n: "plain n"
  have no: "normal False [''media'']"
    using plain_normal_snoc [OF normal_Nil plain_names(3), of False] by simp
  have r: "render False [''media''] = ''media''" by (simp add: render_def)
  have "filepath_Join [''media'', n] = filepath_Clean (''media'' @ ''/'' @ n)"
    using n by (simp add: filepath_Join_def plain_def)
  also have "\<dots> = render False ([''media''] @ [n])"
    using clean_child [OF no n] r by simp
  also have "\<dots> = ''media/'' @ n" by (simp add: render_def)
  finally show ?thesis .
qed

lemma os_Create_fail: "resolve fs p = Inl e \<Longrightarrow> os_Create fs p = Inl e"
  by (simp add: os_Create_def)

lemma os_Create_dir:
  "resolve fs p = Inr b \<Longrightarrow> stat (tree fs) b = Some IsDir \<Longrightarrow> os_Create fs p = Inl EISDIR"
  by (simp add: os_Create_def)

lemma os_Create_put:
  "resolve fs p = Inr b \<Longrightarrow> stat (tree fs) b \<noteq> Some IsDir \<Longrightarrow>
   os_Create fs p = Inr (b, fs\<lparr>tree := put b (File []) (tree fs)\<rparr>)"
  by (cases "stat (tree fs) b") (auto simp: os_Create_def split: kind.splits)

lemma os_Create_Inr:
  assumes "os_Create fs p = Inr (b, fs')"
  shows "resolve fs p = Inr b" and "stat (tree fs) b \<noteq> Some IsDir"
    and "fs' = fs\<lparr>tree := put b (File []) (tree fs)\<rparr>"
proof -
  have "resolve fs p = Inr b \<and> stat (tree fs) b \<noteq> Some IsDir
      \<and> fs' = fs\<lparr>tree := put b (File []) (tree fs)\<rparr>"
  proof (cases "resolve fs p")
    case (Inl e)
    with assms os_Create_fail [OF Inl] show ?thesis by simp
  next
    case (Inr b')
    show ?thesis
    proof (cases "stat (tree fs) b' = Some IsDir")
      case True
      with assms os_Create_dir [OF Inr True] show ?thesis by simp
    next
      case False
      with assms os_Create_put [OF Inr False] Inr show ?thesis by auto
    qed
  qed
  then show "resolve fs p = Inr b" and "stat (tree fs) b \<noteq> Some IsDir"
    and "fs' = fs\<lparr>tree := put b (File []) (tree fs)\<rparr>" by simp_all
qed

lemma io_Copy_Inr:
  assumes "io_Copy fs dst src = Inr fs'"
  obtains d where "stat (tree fs) src = Some (IsFile d)"
    and "fs' = fs\<lparr>tree := put dst (File d) (tree fs)\<rparr>"
proof (cases "stat (tree fs) src")
  case None
  with assms show ?thesis by (simp add: io_Copy_def)
next
  case (Some k)
  show ?thesis
  proof (cases k)
    case IsDir
    with assms Some show ?thesis by (simp add: io_Copy_def)
  next
    case (IsFile d)
    with assms Some have "fs' = fs\<lparr>tree := put dst (File d) (tree fs)\<rparr>"
      by (simp add: io_Copy_def)
    with Some IsFile show ?thesis by (intro that [of d]) simp_all
  qed
qed

lemma os_Open_Inr:
  "os_Open fs p = Inr a \<longleftrightarrow> resolve fs p = Inr a \<and> stat (tree fs) a \<noteq> None"
  by (cases "resolve fs p"; cases "stat (tree fs) a") (auto simp: os_Open_def split: option.splits)

lemma mediadir_cleaned: "rootDir s \<noteq> [] \<or> i \<noteq> [] \<Longrightarrow> cleaned (GetMediaDir s i)"
  unfolding GetMediaDir_def by (intro cleaned_child docpath_cleaned plain_names)

lemma clean_append:
  assumes "normal r out" and "\<forall>c\<in>set cs. CHR ''/'' \<notin> set c" and "cs \<noteq> []"
  shows "filepath_Clean (render r out @ CHR ''/'' # join_sep cs)
           = render r (foldl (clean_step r) out cs)"
proof -
  let ?y = "render r out @ CHR ''/'' # join_sep cs"
  have ne: "?y \<noteq> []" by simp
  have rooted: "is_rooted ?y = r"
    using is_rooted_render [OF assms(1)] render_nonempty [OF assms(1)]
    by (simp add: is_rooted_def)
  have "split_path ?y = split_path (render r out) @ split_path (join_sep cs)"
    by (rule split_path_append)
  also have "split_path (join_sep cs) = cs"
    using assms(3,2) by (rule split_path_join)
  finally have sp: "split_path ?y = split_path (render r out) @ cs" .
  have "foldl (clean_step r) [] (split_path ?y) = foldl (clean_step r) out cs"
    by (simp add: sp clean_comps_render [OF assms(1)])
  then show ?thesis
    using filepath_Clean_render [OF ne] rooted by simp
qed

lemma Join_dot:
  assumes "cleaned p"
  shows "filepath_Join [p, ''.''] = p" and "filepath_Join [p, ''/''] = p"
proof -
  from assms obtain r out where no: "normal r out" and p: "p = render r out"
    by (auto simp: cleaned_def)
  have ne: "p \<noteq> []" using assms by (rule cleaned_nonempty)
  have "filepath_Clean (render r out @ CHR ''/'' # join_sep [''.'']) = render r out"
    using clean_append [OF no, of "[''.'']"] by (simp add: clean_step_skip)
  then show "filepath_Join [p, ''.''] = p"
    using ne p by (simp add: filepath_Join_def)
  have "filepath_Clean (render r out @ CHR ''/'' # join_sep [[], []]) = render r out"
    using clean_append [OF no, of "[[], []]"] by (simp add: clean_step_skip)
  then show "filepath_Join [p, ''/''] = p"
    using ne p by (simp add: filepath_Join_def)
qed

lemma Join_child_up:
  assumes "cleaned p" and "plain n"
  shows "filepath_Join [filepath_Join [p, n], ''..''] = p"
proof -
  from assms(1) obtain r out where no: "normal r out" and p: "p = render r out"
    by (auto simp: cleaned_def)
  have ne: "p \<noteq> []" using assms(1) by (rule cleaned_nonempty)
  have no': "normal r (out @ [n])" using no assms(2) by (rule plain_normal_snoc)
  have j: "filepath_Join [p, n] = render r (out @ [n])"
    using Join_child [of p n] clean_child [OF no assms(2)] ne assms(2) p
    by (simp add: plain_def)
  have "clean_step r (out @ [n]) ''..'' = out"
    using assms(2) by (simp add: clean_step_def plain_def)
  then have "filepath_Clean (render r (out @ [n]) @ CHR ''/'' # join_sep [''..'']) = render r out"
    using clean_append [OF no', of "[''..'']"] by simp
  then have "filepath_Join [render r (out @ [n]), ''..''] = render r out"
    using render_nonempty [OF no'] by (simp add: filepath_Join_def)
  with j show ?thesis by (simp only: p [symmetric])
qed

lemma walk_last_parent:
  "walk t cur cs = Inr a \<Longrightarrow> cs \<noteq> [] \<Longrightarrow>
   stat t a = Some IsDir \<or> (\<exists>b c. a = b @ [c] \<and> stat t b = Some IsDir)"
proof (induction cs arbitrary: cur)
  case Nil
  then show ?case by simp
next
  case (Cons c cs)
  from Cons.prems(1) have dir: "stat t cur = Some IsDir"
    by (auto split: option.splits kind.splits)
  show ?case
  proof (cases "cs = []")
    case True
    consider (skip) "c = [] \<or> c = ''.''" | (up) "c = ''..''"
      | (name) "c \<noteq> [] \<and> c \<noteq> ''.'' \<and> c \<noteq> ''..''" by blast
    then show ?thesis
    proof cases
      case skip
      with Cons.prems(1) True dir show ?thesis by auto
    next
      case up
      with Cons.prems(1) True dir have "a = butlast cur" by auto
      with stat_butlast_dir [OF dir] show ?thesis by simp
    next
      case name
      with Cons.prems(1) True dir have "a = cur @ [c]" by auto
      with dir show ?thesis by blast
    qed
  next
    case False
    from Cons.prems(1) dir obtain cur' where "walk t cur' cs = Inr a"
      by (auto split: if_splits)
    from Cons.IH [OF this False] show ?thesis .
  qed
qed

text \<open>Writing a regular file at a resolved path changes that path and nothing else.\<close>

lemma stat_put_resolved:
  assumes "resolve fs p = Inr a" and "stat (tree fs) a \<noteq> Some IsDir"
  shows "stat (put a (File d) (tree fs)) q
           = (if q = a then Some (IsFile d) else stat (tree fs) q)"
proof -
  from assms(1) have "walk (tree fs) (start_dir fs p) (split_path p) = Inr a"
    by (auto simp: resolve_def split: if_splits)
  from walk_last_parent [OF this split_path_nonempty] assms(2)
  obtain b c where a: "a = b @ [c]" and b: "stat (tree fs) b = Some IsDir" by blast
  from stat_put_file [OF b, of c d q] assms(2) a show ?thesis by simp
qed

lemma CopyMediaFile_cases:
  obtains (missing) "\<not> DocumentExists s fs i"
      and "CopyMediaFile s fs i src = (Inl (ErrNotExist i), fs)"
  | (no_source) e where "DocumentExists s fs i" and "os_Open fs src = Inl e"
      and "CopyMediaFile s fs i src = (Inl (Wrap ''failed to open source file'' (ErrOS e)), fs)"
  | (no_dest) srcFile e where "DocumentExists s fs i" and "os_Open fs src = Inr srcFile"
      and "os_Create fs (filepath_Join [GetMediaDir s i, filepath_Base src]) = Inl e"
      and "CopyMediaFile s fs i src
             = (Inl (Wrap ''failed to create destination file'' (ErrOS e)), fs)"
  | (no_copy) srcFile destFile fs1 e where "DocumentExists s fs i"
      and "os_Open fs src = Inr srcFile"
      and "os_Create fs (filepath_Join [GetMediaDir s i, filepath_Base src]) = Inr (destFile, fs1)"
      and "io_Copy fs1 destFile srcFile = Inl e"
      and "CopyMediaFile s fs i src = (Inl (Wrap ''failed to copy file'' (ErrOS e)), fs1)"
  | (copied) srcFile destFile fs1 fs2 where "DocumentExists s fs i"
      and "os_Open fs src = Inr srcFile"
      and "os_Create fs (filepath_Join [GetMediaDir s i, filepath_Base src]) = Inr (destFile, fs1)"
      and "io_Copy fs1 destFile srcFile = Inr fs2"
      and "CopyMediaFile s fs i src
             = (Inr (filepath_Join [''media'', filepath_Base src]), fs2)"
proof (cases "DocumentExists s fs i")
  case False
  then have "CopyMediaFile s fs i src = (Inl (ErrNotExist i), fs)"
    by (simp add: CopyMediaFile_def)
  with False show ?thesis by (rule missing)
next
  case ex: True
  show ?thesis
  proof (cases "os_Open fs src")
    case (Inl e)
    with ex have "CopyMediaFile s fs i src
        = (Inl (Wrap ''failed to open source file'' (ErrOS e)), fs)"
      by (simp add: CopyMediaFile_def)
    with ex Inl show ?thesis by (rule no_source)
  next
    case op: (Inr srcFile)
    show ?thesis
    proof (cases "os_Create fs (filepath_Join [GetMediaDir s i, filepath_Base src])")
      case (Inl e)
      with ex op have "CopyMediaFile s fs i src
          = (Inl (Wrap ''failed to create destination file'' (ErrOS e)), fs)"
        by (simp add: CopyMediaFile_def Let_def)
      with ex op Inl show ?thesis by (rule no_dest)
    next
      case (Inr pr)
      obtain destFile fs1 where pr: "pr = (destFile, fs1)" by (cases pr)
      with Inr have cr: "os_Create fs (filepath_Join [GetMediaDir s i, filepath_Base src])
          = Inr (destFile, fs1)" by simp
      show ?thesis
      proof (cases "io_Copy fs1 destFile srcFile")
        case (Inl e)
        with ex op cr have "CopyMediaFile s fs i src
            = (Inl (Wrap ''failed to copy file'' (ErrOS e)), fs1)"
          by (simp add: CopyMediaFile_def Let_def)
        with ex op cr Inl show ?thesis by (rule no_copy)
      next
        case cp: (Inr fs2)
        with ex op cr have "CopyMediaFile s fs i src
            = (Inr (filepath_Join [''media'', filepath_Base src]), fs2)"
          by (simp add: CopyMediaFile_def Let_def)
        with ex op cr cp show ?thesis by (rule copied)
      qed
    qed
  qed
qed

lemma docdir_is_dir:
  assumes "cleaned (GetDocumentPath s i)" and "DocumentExists s fs i"
  obtains a where "resolve fs (GetDocumentPath s i) = Inr a" and "stat (tree fs) a = Some IsDir"
proof -
  from assms have "entry fs (GetDocumentPath s i) ''index.html'' \<noteq> None"
    by (simp add: DocumentExists_iff)
  then obtain k where "entry fs (GetDocumentPath s i) ''index.html'' = Some k" by blast
  from entry_resolved [OF this] obtain a where a: "resolve fs (GetDocumentPath s i) = Inr a"
    and "stat (tree fs) (a @ [''index.html'']) = Some k" by blast
  then have "stat (tree fs) a = Some IsDir" by (intro stat_parent_dir [of _ _ "''index.html''"]) simp
  with a show ?thesis by (rule that)
qed

text \<open>Where the destination of a copy lies, whatever the source path is.\<close>

lemma destination_in_media:
  assumes ne: "rootDir s \<noteq> [] \<or> i \<noteq> []" and ex: "DocumentExists s fs i"
    and cr: "os_Create fs (filepath_Join [GetMediaDir s i, filepath_Base src]) = Inr (dst, fs1)"
  shows "\<exists>M. resolve fs (GetMediaDir s i) = Inr M \<and> prefix M dst"
proof -
  have clp: "cleaned (GetDocumentPath s i)" using ne by (rule docpath_cleaned)
  have clm: "cleaned (GetMediaDir s i)" using ne by (rule mediadir_cleaned)
  note c = os_Create_Inr [OF cr]
  from filepath_Base_cases [of src]
  consider (dot) "filepath_Base src = ''.'' \<or> filepath_Base src = ''/''"
    | (up) "filepath_Base src = ''..''" | (name) "plain (filepath_Base src)" by blast
  then show ?thesis
  proof cases
    case dot
    then have "filepath_Join [GetMediaDir s i, filepath_Base src] = GetMediaDir s i"
      using Join_dot [OF clm] by auto
    with c(1) show ?thesis by simp
  next
    case up
    then have "filepath_Join [GetMediaDir s i, filepath_Base src] = GetDocumentPath s i"
      using Join_child_up [OF clp plain_names(3)] by (simp add: GetMediaDir_def)
    with c(1) have "resolve fs (GetDocumentPath s i) = Inr dst" by simp
    moreover from docdir_is_dir [OF clp ex] obtain a where
      "resolve fs (GetDocumentPath s i) = Inr a" "stat (tree fs) a = Some IsDir" by blast
    ultimately have "stat (tree fs) dst = Some IsDir" by simp
    with c(2) show ?thesis by simp
  next
    case name
    from c(1) resolve_child_Inr [OF clm name, of fs dst]
    obtain M where "resolve fs (GetMediaDir s i) = Inr M" "dst = M @ [filepath_Base src]" by blast
    then show ?thesis by auto
  qed
qed

text \<open>
  C6. \<open>CopyMediaFile\<close> requires the document to exist. When it succeeds, the source is a
  regular file, the file name is the last path component of the source path (a single
  name, without separator), the copy is stored at that name in the media directory, the
  returned path is \<open>media/<filename>\<close>, and nothing else in the file system has changed.
  A file of that name in the media directory is overwritten without an error. Whatever the
  outcome and whatever the source path, every path the call has changed lies in the media
  directory.
\<close>

theorem copy_media_file:
  assumes "rootDir s \<noteq> [] \<or> i \<noteq> []"
  shows "(\<not> DocumentExists s fs i \<longrightarrow> CopyMediaFile s fs i src = (Inl (ErrNotExist i), fs))
    \<and> (CopyMediaFile s fs i src = (Inr rel, fs')
         \<longrightarrow> DocumentExists s fs i
           \<and> plain (filepath_Base src)
           \<and> rel = ''media/'' @ filepath_Base src
           \<and> (\<exists>M srcFile c.
                 resolve fs (GetMediaDir s i) = Inr M
               \<and> resolve fs src = Inr srcFile
               \<and> stat (tree fs) srcFile = Some (IsFile c)
               \<and> (\<forall>q. stat (tree fs') q
                      = (if q = M @ [filepath_Base src]
                         then Some (IsFile (if srcFile = M @ [filepath_Base src] then [] else c))
                         else stat (tree fs) q))))
    \<and> (DocumentExists s fs i
         \<and> resolve fs src = Inr srcFile \<and> stat (tree fs) srcFile = Some (IsFile c)
         \<and> entry fs (GetMediaDir s i) (filepath_Base src) = Some (IsFile old)
         \<and> resolve fs (filepath_Join [GetMediaDir s i, filepath_Base src]) \<noteq> Inr srcFile
         \<longrightarrow> (\<exists>fs2. CopyMediaFile s fs i src = (Inr (''media/'' @ filepath_Base src), fs2)
                \<and> entry fs2 (GetMediaDir s i) (filepath_Base src) = Some (IsFile c)))
    \<and> (\<forall>q. stat (tree (snd (CopyMediaFile s fs i src))) q \<noteq> stat (tree fs) q
           \<longrightarrow> (\<exists>M. resolve fs (GetMediaDir s i) = Inr M \<and> prefix M q))"
proof (intro conjI impI allI)
  assume "\<not> DocumentExists s fs i"
  then show "CopyMediaFile s fs i src = (Inl (ErrNotExist i), fs)"
    by (simp add: CopyMediaFile_def)
next
  have clm: "cleaned (GetMediaDir s i)" using assms by (rule mediadir_cleaned)
  {
    fix srcFile destFile fs1 fs2
    assume op: "os_Open fs src = Inr srcFile"
      and cr: "os_Create fs (filepath_Join [GetMediaDir s i, filepath_Base src]) = Inr (destFile, fs1)"
      and cp: "io_Copy fs1 destFile srcFile = Inr fs2"
    note c = os_Create_Inr [OF cr]
    from op have rs: "resolve fs src = Inr srcFile" and es: "stat (tree fs) srcFile \<noteq> None"
      by (simp_all add: os_Open_Inr)
    from cp obtain d where d: "stat (tree fs1) srcFile = Some (IsFile d)"
      and fs2: "fs2 = fs1\<lparr>tree := put destFile (File d) (tree fs1)\<rparr>"
      by (rule io_Copy_Inr)
    have t1: "\<And>q. stat (tree fs1) q = (if q = destFile then Some (IsFile []) else stat (tree fs) q)"
      using stat_put_resolved [OF c(1,2)] c(3) by simp
    obtain c0 where c0: "stat (tree fs) srcFile = Some (IsFile c0)"
        and dd: "d = (if srcFile = destFile then [] else c0)"
    proof (cases "srcFile = destFile")
      case True
      with c(2) es obtain k where "stat (tree fs) srcFile = Some (IsFile k)"
        by (cases "stat (tree fs) srcFile") (auto simp: kind.exhaust, metis kind.exhaust)
      moreover from True d t1 [of srcFile] have "d = []" by simp
      ultimately show ?thesis using True by (intro that [of k]) simp_all
    next
      case False
      with d t1 [of srcFile] have "stat (tree fs) srcFile = Some (IsFile d)" by simp
      with False show ?thesis by (intro that [of d]) simp_all
    qed
    from resolved_file_base [OF rs c0] have pl: "plain (filepath_Base src)" by simp
    from c(1) resolve_child_Inr [OF clm pl, of fs destFile]
    obtain M where M: "resolve fs (GetMediaDir s i) = Inr M" "stat (tree fs) M = Some IsDir"
      and dst: "destFile = M @ [filepath_Base src]" by blast
    have md1: "stat (tree fs1) M = Some IsDir" using t1 [of M] M(2) dst by simp
    have nd1: "stat (tree fs1) (M @ [filepath_Base src]) \<noteq> Some IsDir"
      using t1 [of destFile] dst by simp
    have t2: "\<And>q. stat (tree fs2) q = (if q = destFile then Some (IsFile d) else stat (tree fs) q)"
      using stat_put_file [OF md1 nd1, of d] t1 fs2 dst by simp
    have "plain (filepath_Base src)
        \<and> (\<exists>M srcFile c.
                 resolve fs (GetMediaDir s i) = Inr M
               \<and> resolve fs src = Inr srcFile
               \<and> stat (tree fs) srcFile = Some (IsFile c)
               \<and> (\<forall>q. stat (tree fs2) q
                      = (if q = M @ [filepath_Base src]
                         then Some (IsFile (if srcFile = M @ [filepath_Base src] then [] else c))
                         else stat (tree fs) q)))"
      using pl M(1) rs c0 t2 dd dst by blast
  }
  note success = this
  {
    assume r: "CopyMediaFile s fs i src = (Inr rel, fs')"
    show "DocumentExists s fs i"
      using r by (auto simp: CopyMediaFile_def split: if_splits)
    have *: "plain (filepath_Base src)
        \<and> rel = filepath_Join [''media'', filepath_Base src]
        \<and> (\<exists>M srcFile c.
                 resolve fs (GetMediaDir s i) = Inr M
               \<and> resolve fs src = Inr srcFile
               \<and> stat (tree fs) srcFile = Some (IsFile c)
               \<and> (\<forall>q. stat (tree fs') q
                      = (if q = M @ [filepath_Base src]
                         then Some (IsFile (if srcFile = M @ [filepath_Base src] then [] else c))
                         else stat (tree fs) q)))"
    proof (cases rule: CopyMediaFile_cases [of s fs i src])
      case (copied srcFile destFile fs1 fs2)
      with r have "rel = filepath_Join [''media'', filepath_Base src]" "fs2 = fs'" by simp_all
      with success [OF copied(2,3,4)] show ?thesis by simp
    qed (use r in simp_all)
    then show "plain (filepath_Base src)" by simp
    with * show "rel = ''media/'' @ filepath_Base src" by (simp add: Join_media)
    from * show "\<exists>M srcFile c.
                 resolve fs (GetMediaDir s i) = Inr M
               \<and> resolve fs src = Inr srcFile
               \<and> stat (tree fs) srcFile = Some (IsFile c)
               \<and> (\<forall>q. stat (tree fs') q
                      = (if q = M @ [filepath_Base src]
                         then Some (IsFile (if srcFile = M @ [filepath_Base src] then [] else c))
                         else stat (tree fs) q))" by simp
  }
  {
    assume a: "DocumentExists s fs i
         \<and> resolve fs src = Inr srcFile \<and> stat (tree fs) srcFile = Some (IsFile c)
         \<and> entry fs (GetMediaDir s i) (filepath_Base src) = Some (IsFile old)
         \<and> resolve fs (filepath_Join [GetMediaDir s i, filepath_Base src]) \<noteq> Inr srcFile"
    then have ex: "DocumentExists s fs i" and rs: "resolve fs src = Inr srcFile"
      and sf: "stat (tree fs) srcFile = Some (IsFile c)"
      and en: "entry fs (GetMediaDir s i) (filepath_Base src) = Some (IsFile old)"
      and df: "resolve fs (filepath_Join [GetMediaDir s i, filepath_Base src]) \<noteq> Inr srcFile"
      by simp_all
    from resolved_file_base [OF rs sf] have pl: "plain (filepath_Base src)" by simp
    from entry_resolved [OF en] obtain M where M: "resolve fs (GetMediaDir s i) = Inr M"
      and old: "stat (tree fs) (M @ [filepath_Base src]) = Some (IsFile old)" by blast
    have md: "stat (tree fs) M = Some IsDir"
      using old by (intro stat_parent_dir [of _ _ "filepath_Base src"]) simp
    let ?dst = "M @ [filepath_Base src]"
    have rd: "resolve fs (filepath_Join [GetMediaDir s i, filepath_Base src]) = Inr ?dst"
      using resolve_child_Inr [OF clm pl, of fs ?dst] M md by simp
    have nd: "stat (tree fs) ?dst \<noteq> Some IsDir" using old by simp
    let ?fs1 = "fs\<lparr>tree := put ?dst (File []) (tree fs)\<rparr>"
    have cr: "os_Create fs (filepath_Join [GetMediaDir s i, filepath_Base src]) = Inr (?dst, ?fs1)"
      using rd nd by (rule os_Create_put)
    have op: "os_Open fs src = Inr srcFile" using rs sf by (simp add: os_Open_Inr)
    have neq: "srcFile \<noteq> ?dst" using df rd by simp
    have "stat (tree ?fs1) srcFile = Some (IsFile c)"
      using stat_put_resolved [OF rd nd, of "[]" srcFile] neq sf by simp
    then have cp: "io_Copy ?fs1 ?dst srcFile
        = Inr (?fs1\<lparr>tree := put ?dst (File c) (tree ?fs1)\<rparr>)"
      by (simp add: io_Copy_def)
    let ?fs2 = "?fs1\<lparr>tree := put ?dst (File c) (tree ?fs1)\<rparr>"
    have res: "CopyMediaFile s fs i src
        = (Inr (filepath_Join [''media'', filepath_Base src]), ?fs2)"
      using ex op cr cp by (simp add: CopyMediaFile_def Let_def)
    from success [OF op cr cp] obtain M' sf' c' where
      M': "resolve fs (GetMediaDir s i) = Inr M'" and sf': "resolve fs src = Inr sf'"
      and c': "stat (tree fs) sf' = Some (IsFile c')"
      and st: "\<And>q. stat (tree ?fs2) q
                      = (if q = M' @ [filepath_Base src]
                         then Some (IsFile (if sf' = M' @ [filepath_Base src] then [] else c'))
                         else stat (tree fs) q)"
      by blast
    from M M' sf' rs c' sf have eqs: "M' = M" "sf' = srcFile" "c' = c" by simp_all
    have dirs: "same_dirs (tree fs) (tree ?fs2)"
      unfolding same_dirs_def
    proof
      fix q
      show "(stat (tree fs) q = Some IsDir) = (stat (tree ?fs2) q = Some IsDir)"
        using st [of q] nd eqs by (cases "q = ?dst") simp_all
    qed
    have "resolve ?fs2 (GetMediaDir s i) = Inr M"
      using resolve_same_dirs [OF dirs, of "GetMediaDir s i" M] M by simp
    then have "entry ?fs2 (GetMediaDir s i) (filepath_Base src) = Some (IsFile c)"
      using st [of ?dst] eqs neq by (simp add: entry_def)
    with res pl show "\<exists>fs2. CopyMediaFile s fs i src = (Inr (''media/'' @ filepath_Base src), fs2)
                \<and> entry fs2 (GetMediaDir s i) (filepath_Base src) = Some (IsFile c)"
      by (simp add: Join_media)
  }
  {
    fix q
    assume ch: "stat (tree (snd (CopyMediaFile s fs i src))) q \<noteq> stat (tree fs) q"
    show "\<exists>M. resolve fs (GetMediaDir s i) = Inr M \<and> prefix M q"
    proof (cases rule: CopyMediaFile_cases [of s fs i src])
      case missing
      with ch show ?thesis by simp
    next
      case (no_source e)
      with ch show ?thesis by simp
    next
      case (no_dest srcFile e)
      with ch show ?thesis by simp
    next
      case (no_copy srcFile destFile fs1 e)
      note c = os_Create_Inr [OF no_copy(3)]
      have "\<And>q. stat (tree fs1) q = (if q = destFile then Some (IsFile []) else stat (tree fs) q)"
        using stat_put_resolved [OF c(1,2)] c(3) by simp
      with ch no_copy(5) have "q = destFile" by (auto split: if_splits)
      with destination_in_media [OF assms no_copy(1,3)] show ?thesis by simp
    next
      case (copied srcFile destFile fs1 fs2)
      from success [OF copied(2,3,4)] obtain M where
        M: "resolve fs (GetMediaDir s i) = Inr M"
        and st: "\<And>q. q \<noteq> M @ [filepath_Base src] \<Longrightarrow> stat (tree fs2) q = stat (tree fs) q"
        by auto
      from ch copied(5) st [of q] have "q = M @ [filepath_Base src]" by auto
      with M show ?thesis by simp
    qed
  }
qed

definition demo_fs2 :: filesys where
  "demo_fs2 =
     \<lparr>tree = Dir [(''docs'', Dir [(''my-report-a3f9'',
                 Dir [(''media'', Dir [(''pic.png'', File ''PNG'')]),
                      (''index.html'', File ''<h1>Hi</h1>''),
                      (''metadata.json'', File ''ccc|uuu|my-report'')])]),
                 (''tmp'', Dir [(''pic.png'', File ''PNG'')])],
      cwd = [''tmp'']\<rparr>"

lemma demo_copy:
  "CopyMediaFile demo_storage demo_fs1 ''my-report-a3f9'' ''/tmp/pic.png''
     = (Inr ''media/pic.png'', demo_fs2)"
  by code_simp

lemma demo_copy_facts:
  "DocumentExists demo_storage demo_fs2 ''my-report-a3f9''"
  "resolve demo_fs2 ''pic.png'' = Inr [''tmp'', ''pic.png'']"
  "stat (tree demo_fs2) [''tmp'', ''pic.png''] = Some (IsFile ''PNG'')"
  "entry demo_fs2 (GetMediaDir demo_storage ''my-report-a3f9'') (filepath_Base ''pic.png'')
     = Some (IsFile ''PNG'')"
  "resolve demo_fs2 (filepath_Join [GetMediaDir demo_storage ''my-report-a3f9'',
     filepath_Base ''pic.png'']) \<noteq> Inr [''tmp'', ''pic.png'']"
  "filepath_Base ''pic.png'' = ''pic.png''"
  "stat (tree demo_fs2) [''docs'', ''my-report-a3f9'', ''media'', ''pic.png'']
     \<noteq> stat (tree demo_fs1) [''docs'', ''my-report-a3f9'', ''media'', ''pic.png'']"
  by code_simp+

theorem copy_media_file_witness:
  "rootDir demo_storage \<noteq> []
   \<and> \<not> DocumentExists demo_storage demo_fs ''my-report-a3f9''
   \<and> CopyMediaFile demo_storage demo_fs ''my-report-a3f9'' ''/tmp/pic.png''
        = (Inl (ErrNotExist ''my-report-a3f9''), demo_fs)
   \<and> CopyMediaFile demo_storage demo_fs1 ''my-report-a3f9'' ''/tmp/pic.png''
        = (Inr ''media/pic.png'', demo_fs2)
   \<and> DocumentExists demo_storage demo_fs1 ''my-report-a3f9''
   \<and> plain (filepath_Base ''/tmp/pic.png'')
   \<and> ''media/pic.png'' = ''media/'' @ filepath_Base ''/tmp/pic.png''
   \<and> entry demo_fs2 (GetMediaDir demo_storage ''my-report-a3f9'') ''pic.png''
        = Some (IsFile ''PNG'')
   \<and> (\<exists>fs2. CopyMediaFile demo_storage demo_fs2 ''my-report-a3f9'' ''pic.png''
                 = (Inr ''media/pic.png'', fs2)
            \<and> entry fs2 (GetMediaDir demo_storage ''my-report-a3f9'') ''pic.png''
                 = Some (IsFile ''PNG''))
   \<and> stat (tree demo_fs2) [''docs'', ''my-report-a3f9'', ''media'', ''pic.png'']
        \<noteq> stat (tree demo_fs1) [''docs'', ''my-report-a3f9'', ''media'', ''pic.png'']
   \<and> (\<exists>M. resolve demo_fs1 (GetMediaDir demo_storage ''my-report-a3f9'') = Inr M
          \<and> prefix M [''docs'', ''my-report-a3f9'', ''media'', ''pic.png''])"
proof -
  have r0: "rootDir demo_storage \<noteq> []" by (simp add: demo_storage_def)
  then have r: "rootDir demo_storage \<noteq> [] \<or> ''my-report-a3f9'' \<noteq> []" by simp
  note a = copy_media_file [OF r, of demo_fs "''/tmp/pic.png''", THEN conjunct1, rule_format,
      OF demo_missing]
  note b = copy_media_file [OF r, of demo_fs1 "''/tmp/pic.png''" "''media/pic.png''" demo_fs2]
  note b2 = b [THEN conjunct2, THEN conjunct1, rule_format, OF demo_copy]
  note b4 = b [THEN conjunct2, THEN conjunct2, THEN conjunct2, rule_format]
  note c = copy_media_file [OF r, of demo_fs2 "''pic.png''" _ _ "[''tmp'', ''pic.png'']"
      "''PNG''" "''PNG''", THEN conjunct2, THEN conjunct2, THEN conjunct1, rule_format]
  have b21: "DocumentExists demo_storage demo_fs1 ''my-report-a3f9''"
    by (rule b2 [THEN conjunct1])
  have b22: "plain (filepath_Base ''/tmp/pic.png'')"
    by (rule b2 [THEN conjunct2, THEN conjunct1])
  have b23: "''media/pic.png'' = ''media/'' @ filepath_Base ''/tmp/pic.png''"
    by (rule b2 [THEN conjunct2, THEN conjunct2, THEN conjunct1])
  have ch: "stat (tree (snd (CopyMediaFile demo_storage demo_fs1 ''my-report-a3f9''
        ''/tmp/pic.png''))) [''docs'', ''my-report-a3f9'', ''media'', ''pic.png'']
      \<noteq> stat (tree demo_fs1) [''docs'', ''my-report-a3f9'', ''media'', ''pic.png'']"
    unfolding demo_copy snd_conv by (rule demo_copy_facts(7))
  have b41: "\<exists>M. resolve demo_fs1 (GetMediaDir demo_storage ''my-report-a3f9'') = Inr M
          \<and> prefix M [''docs'', ''my-report-a3f9'', ''media'', ''pic.png'']"
    using ch by (rule b4)
  have "\<exists>fs2. CopyMediaFile demo_storage demo_fs2 ''my-report-a3f9'' ''pic.png''
                 = (Inr (''media/'' @ filepath_Base ''pic.png''), fs2)
            \<and> entry fs2 (GetMediaDir demo_storage ''my-report-a3f9'') (filepath_Base ''pic.png'')
                 = Some (IsFile ''PNG'')"
    by (rule c) (intro conjI demo_copy_facts(1-5))
  then have c1: "\<exists>fs2. CopyMediaFile demo_storage demo_fs2 ''my-report-a3f9'' ''pic.png''
                 = (Inr ''media/pic.png'', fs2)
            \<and> entry fs2 (GetMediaDir demo_storage ''my-report-a3f9'') ''pic.png''
                 = Some (IsFile ''PNG'')"
    unfolding demo_copy_facts(6) by simp
  have e: "entry demo_fs2 (GetMediaDir demo_storage ''my-report-a3f9'') ''pic.png''
        = Some (IsFile ''PNG'')"
    using demo_copy_facts(4) unfolding demo_copy_facts(6) .
  show ?thesis
    by (intro conjI r0 demo_missing a demo_copy b21 b22 b23 e c1 demo_copy_facts(7) b41)
qed

section \<open>Print-style injection\<close>

text \<open>
  A Go string is a sequence of bytes, here a \<^typ>\<open>string\<close>; a rune is an \<^typ>\<open>int\<close>.
  A run-time panic (a slice bound out of range) is an outcome of its own.
\<close>

datatype 'a outcome = Panics | Returns 'a

subsection \<open>Package \<open>unicode/utf8\<close>\<close>

definition RuneError :: int where "RuneError = 0xFFFD"
definition RuneSelf :: int where "RuneSelf = 0x80"
definition MaxRune :: int where "MaxRune = 0x10FFFF"

definition byte :: "char \<Rightarrow> int" where
  "byte c = int (of_char c)"

definition to_byte :: "int \<Rightarrow> char" where
  "to_byte r = char_of (r mod 256)"

text \<open>The table \<open>first\<close> and the accept ranges: the length of the sequence a leading byte
  announces, and the bounds on its second byte.\<close>

definition seq_size :: "int \<Rightarrow> nat" where
  "seq_size s0 = (if s0 < 0xE0 then 2 else if s0 < 0xF0 then 3 else 4)"

definition accept_lo :: "int \<Rightarrow> int" where
  "accept_lo s0 = (if s0 = 0xE0 then 0xA0 else if s0 = 0xF0 then 0x90 else 0x80)"

definition accept_hi :: "int \<Rightarrow> int" where
  "accept_hi s0 = (if s0 = 0xED then 0x9F else if s0 = 0xF4 then 0x8F else 0xBF)"

definition DecodeRuneInString :: "string \<Rightarrow> int \<times> nat" where
  "DecodeRuneInString s =
     (if length s < 1 then (RuneError, 0)
      else
        let s0 = byte (s ! 0) in
        if s0 < 0x80 then (s0, 1)
        else if s0 < 0xC2 \<or> 0xF4 < s0 then (RuneError, 1)
        else
          let sz = seq_size s0 in
          if length s < sz then (RuneError, 1)
          else
            let s1 = byte (s ! 1) in
            if s1 < accept_lo s0 \<or> accept_hi s0 < s1 then (RuneError, 1)
            else if sz \<le> 2 then (push_bit 6 (s0 AND 0x1F) OR (s1 AND 0x3F), 2)
            else
              let s2 = byte (s ! 2) in
              if s2 < 0x80 \<or> 0xBF < s2 then (RuneError, 1)
              else if sz \<le> 3 then
                (push_bit 12 (s0 AND 0x0F) OR push_bit 6 (s1 AND 0x3F) OR (s2 AND 0x3F), 3)
              else
                let s3 = byte (s ! 3) in
                if s3 < 0x80 \<or> 0xBF < s3 then (RuneError, 1)
                else (push_bit 18 (s0 AND 0x07) OR push_bit 12 (s1 AND 0x3F)
                        OR push_bit 6 (s2 AND 0x3F) OR (s3 AND 0x3F), 4))"

definition RuneLen :: "int \<Rightarrow> nat" where
  "RuneLen r =
     (if r < 0 then 0
      else if r \<le> 0x7F then 1
      else if r \<le> 0x7FF then 2
      else if 0xD800 \<le> r \<and> r \<le> 0xDFFF then 0
      else if r \<le> 0xFFFF then 3
      else if r \<le> MaxRune then 4
      else 0)"

text \<open>\<open>Builder.WriteRune\<close>: the UTF-8 encoding of a rune, of U+FFFD for a rune out of range.\<close>

definition WriteRune :: "int \<Rightarrow> string" where
  "WriteRune r =
     (if 0 \<le> r \<and> r \<le> 0x7F then [to_byte r]
      else if 0 \<le> r \<and> r \<le> 0x7FF then
        [to_byte (0xC0 OR drop_bit 6 r), to_byte (0x80 OR (r AND 0x3F))]
      else if (0x7FF < r \<and> r < 0xD800) \<or> (0xDFFF < r \<and> r \<le> 0xFFFF) then
        [to_byte (0xE0 OR drop_bit 12 r), to_byte (0x80 OR (drop_bit 6 r AND 0x3F)),
         to_byte (0x80 OR (r AND 0x3F))]
      else if 0xFFFF < r \<and> r \<le> MaxRune then
        [to_byte (0xF0 OR drop_bit 18 r), to_byte (0x80 OR (drop_bit 12 r AND 0x3F)),
         to_byte (0x80 OR (drop_bit 6 r AND 0x3F)), to_byte (0x80 OR (r AND 0x3F))]
      else [CHR 0xEF, CHR 0xBF, CHR 0xBD])"

text \<open>\<open>for i, c := range s\<close>: the byte offset and the rune of every step of the loop; a byte
  that begins no valid sequence gives U+FFFD and a step of one byte.\<close>

lemma decode_width: "s \<noteq> [] \<Longrightarrow> 0 < snd (DecodeRuneInString s)"
  by (simp add: DecodeRuneInString_def Let_def)

function range_from :: "string \<Rightarrow> nat \<Rightarrow> (nat \<times> int) list" where
  "range_from s i =
     (if length s \<le> i then []
      else (i, fst (DecodeRuneInString (drop i s)))
             # range_from s (i + snd (DecodeRuneInString (drop i s))))"
  by pat_completeness auto
termination
proof (relation "measure (\<lambda>(s, i). length s - i)")
  fix s :: string and i :: nat
  assume "\<not> length s \<le> i"
  then have "drop i s \<noteq> []" by simp
  from decode_width [OF this] \<open>\<not> length s \<le> i\<close>
  show "((s, i + snd (DecodeRuneInString (drop i s))), (s, i)) \<in> measure (\<lambda>(s, i). length s - i)"
    by simp
qed simp

declare range_from.simps [simp del]

definition range_string :: "string \<Rightarrow> (nat \<times> int) list" where
  "range_string s = range_from s 0"

subsection \<open>Package \<open>unicode\<close>\<close>

text \<open>
  \<open>unicode.ToLower\<close> answers for an ASCII rune itself and asks the case tables of the Unicode
  standard (\<open>unicode.To(LowerCase, r)\<close>) for every other rune. The tables are a parameter
  \<open>tbl\<close> of the model.
\<close>

definition unicode_ToLower :: "(int \<Rightarrow> int) \<Rightarrow> int \<Rightarrow> int" where
  "unicode_ToLower tbl r =
     (if r \<le> 0x7F then (if 0x41 \<le> r \<and> r \<le> 0x5A then r + 0x20 else r)
      else tbl r)"

subsection \<open>Package \<open>strings\<close>\<close>

primrec index_loop :: "string \<Rightarrow> string \<Rightarrow> nat \<Rightarrow> int" where
  "index_loop substr [] i = (if substr = [] then int i else - 1)"
| "index_loop substr (c # cs) i =
     (if prefix substr (c # cs) then int i else index_loop substr cs (i + 1))"

definition strings_Index :: "string \<Rightarrow> string \<Rightarrow> int" where
  "strings_Index s substr = index_loop substr s 0"

text \<open>\<open>strings.Map\<close>: the first loop looks for the first rune that the mapping changes, or that
  is an invalid byte; the second loop maps and encodes every rune after it.\<close>

primrec map_rest :: "(int \<Rightarrow> int) \<Rightarrow> (nat \<times> int) list \<Rightarrow> string" where
  "map_rest mapping [] = []"
| "map_rest mapping (ic # rest) =
     (let r = mapping (snd ic) in
      (if 0 \<le> r then (if r < RuneSelf then [to_byte r] else WriteRune r) else [])
        @ map_rest mapping rest)"

primrec map_first :: "(int \<Rightarrow> int) \<Rightarrow> string \<Rightarrow> (nat \<times> int) list \<Rightarrow> string" where
  "map_first mapping s [] = s"
| "map_first mapping s (ic # rest) =
     (let i = fst ic; c = snd ic; r = mapping c in
      if r = c \<and> c \<noteq> RuneError then map_first mapping s rest
      else if c = RuneError \<and> snd (DecodeRuneInString (drop i s)) \<noteq> 1
              \<and> r = fst (DecodeRuneInString (drop i s))
      then map_first mapping s rest
      else
        let width = (if c = RuneError then snd (DecodeRuneInString (drop i s)) else RuneLen c)
        in take i s @ (if 0 \<le> r then WriteRune r else [])
             @ map_rest mapping (range_string (drop (i + width) s)))"

definition strings_Map :: "(int \<Rightarrow> int) \<Rightarrow> string \<Rightarrow> string" where
  "strings_Map mapping s = map_first mapping s (range_string s)"

definition ascii_upper :: "char \<Rightarrow> bool" where
  "ascii_upper c = (0x41 \<le> byte c \<and> byte c \<le> 0x5A)"

definition ascii_lower :: "char \<Rightarrow> char" where
  "ascii_lower c = (if ascii_upper c then to_byte (byte c + 0x20) else c)"

definition strings_ToLower :: "(int \<Rightarrow> int) \<Rightarrow> string \<Rightarrow> string" where
  "strings_ToLower tbl s =
     (if list_all (\<lambda>c. byte c < RuneSelf) s then
        (if \<not> list_ex ascii_upper s then s else map ascii_lower s)
      else strings_Map (unicode_ToLower tbl) s)"

subsection \<open>The injection\<close>

definition quoted :: "string \<Rightarrow> string" where
  "quoted s = [CHR 0x22] @ s @ [CHR 0x22]"

definition defaultPrintStyles :: string where
  "defaultPrintStyles = concat (map ((#) CHR 0x0A)
     [''<style media='' @ quoted ''print'' @ ''>'',
      ''/* Auto-injected print optimization fallback */'',
      ''/* These rules apply only if document doesn'' @ [CHR 0x27]
         @ ''t define its own @media print styles */'',
      ''@media print {'',
      ''  /* Remove decorative body backgrounds */'',
      ''  body {'',
      ''    background: white !important;'',
      ''    background-color: white !important;'',
      ''    background-image: none !important;'',
      ''  }'',
      [],
      ''  /* Remove decorative shadows that waste ink */'',
      ''  * {'',
      ''    box-shadow: none !important;'',
      ''    text-shadow: none !important;'',
      ''  }'',
      [],
      ''  /* Preserve page breaks and layout */'',
      ''  @page {'',
      ''    margin: 0.5in;'',
      ''  }'',
      ''}'',
      ''</style>''])"

text \<open>Slices \<open>s[:i]\<close> and \<open>s[i:]\<close> of a string panic when \<open>i\<close> is not within \<open>0 .. len(s)\<close>.\<close>

definition in_bounds :: "string \<Rightarrow> int \<Rightarrow> bool" where
  "in_bounds s i = (0 \<le> i \<and> i \<le> int (length s))"

definition InjectDefaultPrintStyles :: "(int \<Rightarrow> int) \<Rightarrow> string \<Rightarrow> string outcome" where
  "InjectDefaultPrintStyles tbl htmlContent =
     (let idx = strings_Index (strings_ToLower tbl htmlContent) ''</head>'' in
      if idx \<noteq> - 1 then
        (if in_bounds htmlContent idx
         then Returns (take (nat idx) htmlContent @ defaultPrintStyles @ [CHR 0x0A]
                        @ drop (nat idx) htmlContent)
         else Panics)
      else
        let idx = strings_Index (strings_ToLower tbl htmlContent) ''<body'' in
        if idx \<noteq> - 1 then
          (if in_bounds htmlContent idx then
             (let endIdx = strings_Index (drop (nat idx) htmlContent) ''>'' in
              if endIdx \<noteq> - 1 then
                (let insertPos = nat (idx + endIdx + 1) in
                 Returns (take insertPos htmlContent @ [CHR 0x0A] @ defaultPrintStyles
                           @ [CHR 0x0A] @ drop insertPos htmlContent))
              else Returns (defaultPrintStyles @ [CHR 0x0A] @ htmlContent))
           else Panics)
        else Returns (defaultPrintStyles @ [CHR 0x0A] @ htmlContent))"

subsection \<open>The case tables enter only at the runes of the input\<close>

text \<open>The runes that \<open>strings.Map\<close> can hand to the mapping: those of the first loop, and those
  of the second loop wherever the first one stops.\<close>

definition after_rune :: "string \<Rightarrow> nat \<times> int \<Rightarrow> int list" where
  "after_rune s ic =
     map snd (range_string (drop (fst ic + RuneLen (snd ic)) s))
       @ map snd (range_string (drop (fst ic + snd (DecodeRuneInString (drop (fst ic) s))) s))"

definition touched :: "string \<Rightarrow> int list" where
  "touched s = concat (map (\<lambda>ic. snd ic # after_rune s ic) (range_string s))"

definition agree :: "(int \<Rightarrow> int) \<Rightarrow> (int \<Rightarrow> int) \<Rightarrow> string \<Rightarrow> bool" where
  "agree t t' s = (\<forall>c\<in>set (touched s). unicode_ToLower t c = unicode_ToLower t' c)"

lemma map_rest_cong:
  "(\<And>ic. ic \<in> set rs \<Longrightarrow> unicode_ToLower t (snd ic) = unicode_ToLower t' (snd ic))
     \<Longrightarrow> map_rest (unicode_ToLower t) rs = map_rest (unicode_ToLower t') rs"
  by (induction rs) simp_all

lemma map_first_cong:
  "(\<And>ic. ic \<in> set rs \<Longrightarrow> unicode_ToLower t (snd ic) = unicode_ToLower t' (snd ic))
   \<Longrightarrow> (\<And>ic c. ic \<in> set rs \<Longrightarrow> c \<in> set (after_rune s ic)
          \<Longrightarrow> unicode_ToLower t c = unicode_ToLower t' c)
   \<Longrightarrow> map_first (unicode_ToLower t) s rs = map_first (unicode_ToLower t') s rs"
proof (induction rs)
  case Nil
  show ?case by simp
next
  case (Cons ic rs)
  have a: "unicode_ToLower t (snd ic) = unicode_ToLower t' (snd ic)" using Cons(2) by simp
  have b: "map_first (unicode_ToLower t) s rs = map_first (unicode_ToLower t') s rs"
  proof (rule Cons(1))
    fix jc
    assume "jc \<in> set rs"
    then show "unicode_ToLower t (snd jc) = unicode_ToLower t' (snd jc)"
      using Cons(2) [of jc] by simp
  next
    fix jc c
    assume "jc \<in> set rs" "c \<in> set (after_rune s jc)"
    then show "unicode_ToLower t c = unicode_ToLower t' c"
      using Cons(3) [of jc c] by simp
  qed
  have c: "map_rest (unicode_ToLower t) (range_string (drop (fst ic + RuneLen (snd ic)) s))
      = map_rest (unicode_ToLower t') (range_string (drop (fst ic + RuneLen (snd ic)) s))"
    by (rule map_rest_cong) (rule Cons(3) [of ic], simp_all add: after_rune_def)
  have d: "map_rest (unicode_ToLower t)
        (range_string (drop (fst ic + snd (DecodeRuneInString (drop (fst ic) s))) s))
      = map_rest (unicode_ToLower t')
        (range_string (drop (fst ic + snd (DecodeRuneInString (drop (fst ic) s))) s))"
    by (rule map_rest_cong) (rule Cons(3) [of ic], simp_all add: after_rune_def)
  show ?case
  proof -
    let ?w = "if snd ic = RuneError then snd (DecodeRuneInString (drop (fst ic) s))
              else RuneLen (snd ic)"
    have cd: "map_rest (unicode_ToLower t) (range_string (drop (fst ic + ?w) s))
        = map_rest (unicode_ToLower t') (range_string (drop (fst ic + ?w) s))"
      using c d by (cases "snd ic = RuneError") simp_all
    show ?thesis by (simp only: map_first.simps Let_def a b cd)
  qed
qed

lemma strings_ToLower_cong:
  assumes "agree t t' s"
  shows "strings_ToLower t s = strings_ToLower t' s"
proof -
  have "map_first (unicode_ToLower t) s (range_string s)
      = map_first (unicode_ToLower t') s (range_string s)"
    by (rule map_first_cong) (use assms in \<open>auto simp: agree_def touched_def\<close>)
  then show ?thesis by (simp add: strings_ToLower_def strings_Map_def)
qed

lemma InjectDefaultPrintStyles_cong:
  "agree t t' s \<Longrightarrow> InjectDefaultPrintStyles t s = InjectDefaultPrintStyles t' s"
  unfolding InjectDefaultPrintStyles_def by (simp only: strings_ToLower_cong)

definition runes_among :: "int list \<Rightarrow> string \<Rightarrow> bool" where
  "runes_among rs s = list_all (\<lambda>c. c \<le> 0x7F \<or> c \<in> set rs) (touched s)"

lemma agreeI:
  assumes "runes_among rs s" and "\<And>r. r \<in> set rs \<Longrightarrow> t r = t' r"
  shows "agree t t' s"
  unfolding agree_def
proof
  fix c
  assume "c \<in> set (touched s)"
  with assms(1) have "c \<le> 0x7F \<or> c \<in> set rs"
    by (simp add: runes_among_def list_all_iff)
  with assms(2) show "unicode_ToLower t c = unicode_ToLower t' c"
    by (auto simp: unicode_ToLower_def)
qed

subsection \<open>What the specification asks for\<close>

text \<open>
  The first case-insensitive occurrence of a (lower-case) tag in the content, and the
  injection as the specification words it: before the first \<open></head>\<close>; failing that, after
  the \<open>>\<close> that closes the first \<open><body\<close>; failing that, in front of the document.
\<close>

definition occurs_at :: "string \<Rightarrow> string \<Rightarrow> nat \<Rightarrow> bool" where
  "occurs_at tag s i = (map ascii_lower (take (length tag) (drop i s)) = tag)"

definition first_occurrence :: "string \<Rightarrow> string \<Rightarrow> nat option" where
  "first_occurrence tag s = find (occurs_at tag s) [0..<Suc (length s)]"

definition spec_inject :: "string \<Rightarrow> string" where
  "spec_inject html =
     (case first_occurrence ''</head>'' html of
        Some i \<Rightarrow> take i html @ defaultPrintStyles @ [CHR 0x0A] @ drop i html
      | None \<Rightarrow>
          (case first_occurrence ''<body'' html of
             Some i \<Rightarrow>
               (case first_occurrence ''>'' (drop i html) of
                  Some e \<Rightarrow> take (i + e + 1) html @ [CHR 0x0A] @ defaultPrintStyles
                              @ [CHR 0x0A] @ drop (i + e + 1) html
                | None \<Rightarrow> defaultPrintStyles @ [CHR 0x0A] @ html)
           | None \<Rightarrow> defaultPrintStyles @ [CHR 0x0A] @ html))"

subsection \<open>Inputs\<close>

text \<open>U+0130 (capital I with dot above) is the two bytes C4 B0 and its lower case is the one
  byte \<open>i\<close>; U+023A (capital A with stroke) is the two bytes C8 BA and its lower case U+2C65
  takes three bytes.\<close>

definition case_table_fragment :: "int \<Rightarrow> int" where
  "case_table_fragment r = (if r = 0x130 then 0x69 else if r = 0x23A then 0x2C65 else r)"

definition html_istanbul :: string where
  "html_istanbul = ''<title>'' @ [CHR 0xC4, CHR 0xB0] @ ''</title></head>''"

definition html_stroke :: string where
  "html_stroke = concat (replicate 8 [CHR 0xC8, CHR 0xBA]) @ ''</head>''"

lemma istanbul_runes: "runes_among [0x130] html_istanbul"
  by code_simp

lemma stroke_runes: "runes_among [0x23A] html_stroke"
  by code_simp

lemma istanbul_fragment:
  "InjectDefaultPrintStyles case_table_fragment html_istanbul
     = Returns (''<title>'' @ [CHR 0xC4, CHR 0xB0] @ ''</title''
                 @ defaultPrintStyles @ [CHR 0x0A] @ ''></head>'')"
  by code_simp

lemma istanbul_spec:
  "spec_inject html_istanbul
     = ''<title>'' @ [CHR 0xC4, CHR 0xB0] @ ''</title>''
         @ defaultPrintStyles @ [CHR 0x0A] @ ''</head>''"
  by code_simp

lemma stroke_fragment: "InjectDefaultPrintStyles case_table_fragment html_stroke = Panics"
  by code_simp

lemma stroke_spec:
  "spec_inject html_stroke
     = concat (replicate 8 [CHR 0xC8, CHR 0xBA]) @ defaultPrintStyles @ [CHR 0x0A] @ ''</head>''"
  by code_simp


lemma istanbul_differs:
  "InjectDefaultPrintStyles case_table_fragment html_istanbul
     \<noteq> Returns (spec_inject html_istanbul)"
  by code_simp

subsection \<open>Where the injection agrees with the specification\<close>

lemma prefix_take: "prefix p xs \<longleftrightarrow> take (length p) xs = p"
  by (metis append_eq_conv_conj prefix_def take_is_prefix)

lemma find_map_option: "find P (map f xs) = map_option f (find (\<lambda>x. P (f x)) xs)"
  by (induction xs) simp_all

lemma index_loop_find:
  "index_loop tag s i
     = (case find (\<lambda>k. prefix tag (drop k s)) [0..<Suc (length s)] of
          None \<Rightarrow> - 1 | Some k \<Rightarrow> int (i + k))"
proof (induction s arbitrary: i)
  case Nil
  show ?case by simp
next
  case (Cons c cs)
  have "[0..<Suc (length (c # cs))] = 0 # map Suc [0..<Suc (length cs)]"
    using upt_conv_Cons [of 0 "Suc (Suc (length cs))"] by (simp add: map_Suc_upt del: upt_Suc)
  then have "find (\<lambda>k. prefix tag (drop k (c # cs))) [0..<Suc (length (c # cs))]
      = (if prefix tag (c # cs) then Some 0
         else map_option Suc (find (\<lambda>k. prefix tag (drop k cs)) [0..<Suc (length cs)]))"
    by (simp add: find_map_option del: upt_Suc)
  then show ?case
    by (simp add: Cons.IH [of "Suc i"] del: upt_Suc split: option.split)
qed

lemma strings_Index_lower:
  "strings_Index (map ascii_lower s) tag
     = (case first_occurrence tag s of None \<Rightarrow> - 1 | Some k \<Rightarrow> int k)"
proof -
  have "occurs_at tag s = (\<lambda>k. prefix tag (drop k (map ascii_lower s)))"
    by (simp add: fun_eq_iff occurs_at_def prefix_take drop_map take_map)
  then show ?thesis
    by (simp add: strings_Index_def index_loop_find first_occurrence_def del: upt_Suc
        split: option.split)
qed

lemma ascii_lower_gt: "ascii_lower c = CHR ''>'' \<longleftrightarrow> c = CHR ''>''"
proof (cases "ascii_upper c")
  case False
  then show ?thesis by (simp add: ascii_lower_def)
next
  case True
  then have b: "0x41 \<le> byte c" "byte c \<le> 0x5A" by (simp_all add: ascii_upper_def)
  then have "c \<noteq> CHR ''>''" by (auto simp: byte_def)
  moreover have "to_byte (byte c + 0x20) \<noteq> CHR ''>''"
  proof
    assume "to_byte (byte c + 0x20) = CHR ''>''"
    then have "of_char (to_byte (byte c + 0x20)) = (of_char CHR ''>'' :: int)" by simp
    with b show False by (simp add: to_byte_def)
  qed
  ultimately show ?thesis using True by (simp add: ascii_lower_def)
qed

lemma occurs_at_gt: "occurs_at ''>'' s k \<longleftrightarrow> prefix ''>'' (drop k s)"
proof -
  have "map ascii_lower xs = ''>'' \<longleftrightarrow> xs = ''>''" for xs
    by (cases xs) (auto simp: ascii_lower_gt)
  then show ?thesis by (simp add: occurs_at_def prefix_take)
qed

lemma strings_Index_gt:
  "strings_Index s ''>'' = (case first_occurrence ''>'' s of None \<Rightarrow> - 1 | Some k \<Rightarrow> int k)"
proof -
  have "occurs_at ''>'' s = (\<lambda>k. prefix ''>'' (drop k s))"
    by (simp add: fun_eq_iff occurs_at_gt)
  then show ?thesis
    by (simp add: strings_Index_def index_loop_find first_occurrence_def del: upt_Suc
        split: option.split)
qed

lemma first_occurrence_le: "first_occurrence tag s = Some k \<Longrightarrow> k \<le> length s"
  by (auto simp: first_occurrence_def find_Some_iff simp del: upt_Suc)

lemma ToLower_ascii:
  assumes "list_all (\<lambda>c. byte c < RuneSelf) s"
  shows "strings_ToLower tbl s = map ascii_lower s"
proof -
  have "\<not> list_ex ascii_upper s \<Longrightarrow> map ascii_lower s = s"
    by (induction s) (simp_all add: ascii_lower_def)
  with assms show ?thesis by (auto simp: strings_ToLower_def)
qed

text \<open>On a document of ASCII bytes the injection is the one the specification describes,
  whatever the case tables are.\<close>

lemma inject_ascii:
  assumes "list_all (\<lambda>c. byte c < RuneSelf) html"
  shows "InjectDefaultPrintStyles tbl html = Returns (spec_inject html)"
  using first_occurrence_le [of "''</head>''" html] first_occurrence_le [of "''<body''" html]
  by (simp add: InjectDefaultPrintStyles_def spec_inject_def ToLower_ascii [OF assms]
      strings_Index_lower strings_Index_gt in_bounds_def Let_def nat_add_distrib
      split: option.split)

text \<open>Whenever the injection returns, its result is the content with one block inserted.\<close>

lemma inject_keeps_content:
  assumes "InjectDefaultPrintStyles tbl html = Returns out"
  shows "\<exists>k block. out = take k html @ block @ drop k html
    \<and> (block = defaultPrintStyles @ [CHR 0x0A]
         \<or> block = [CHR 0x0A] @ defaultPrintStyles @ [CHR 0x0A])"
proof -
  have "out = take 0 html @ (defaultPrintStyles @ [CHR 0x0A]) @ drop 0 html
      \<or> (\<exists>k. out = take k html @ (defaultPrintStyles @ [CHR 0x0A]) @ drop k html)
      \<or> (\<exists>k. out = take k html @ ([CHR 0x0A] @ defaultPrintStyles @ [CHR 0x0A]) @ drop k html)"
    using assms
    by (auto simp: InjectDefaultPrintStyles_def Let_def split: if_splits)
  then show ?thesis by blast
qed

text \<open>
  C2. The print-style injection does not always put the style block immediately before
  the first \<open></head>\<close>: the position is searched in the lower-cased content and used in the
  original, and lower-casing changes the length of some characters. With the case mapping
  of U+0130 the block lands inside the tag before \<open></head>\<close>; with the case mapping of
  U+023A the position lies beyond the end of the content and the function panics.
\<close>

theorem inject_print_styles_misplaced:
  assumes "tbl 0x130 = 0x69" and "tbl 0x23A = 0x2C65"
  shows "InjectDefaultPrintStyles tbl html_istanbul
           = Returns (''<title>'' @ [CHR 0xC4, CHR 0xB0] @ ''</title''
                       @ defaultPrintStyles @ [CHR 0x0A] @ ''></head>'')
       \<and> spec_inject html_istanbul
           = ''<title>'' @ [CHR 0xC4, CHR 0xB0] @ ''</title>''
               @ defaultPrintStyles @ [CHR 0x0A] @ ''</head>''
       \<and> InjectDefaultPrintStyles tbl html_istanbul \<noteq> Returns (spec_inject html_istanbul)
       \<and> InjectDefaultPrintStyles tbl html_stroke = Panics"
proof -
  have "agree tbl case_table_fragment html_istanbul"
    by (rule agreeI [OF istanbul_runes]) (simp add: assms case_table_fragment_def)
  then have i: "InjectDefaultPrintStyles tbl html_istanbul
      = InjectDefaultPrintStyles case_table_fragment html_istanbul"
    by (rule InjectDefaultPrintStyles_cong)
  have "agree tbl case_table_fragment html_stroke"
    by (rule agreeI [OF stroke_runes]) (simp add: assms case_table_fragment_def)
  then have s: "InjectDefaultPrintStyles tbl html_stroke
      = InjectDefaultPrintStyles case_table_fragment html_stroke"
    by (rule InjectDefaultPrintStyles_cong)
  show ?thesis
    unfolding i s using istanbul_fragment istanbul_spec istanbul_differs stroke_fragment
    by (intro conjI)
qed

theorem inject_print_styles_misplaced_witness:
  "case_table_fragment 0x130 = 0x69 \<and> case_table_fragment 0x23A = 0x2C65
   \<and> InjectDefaultPrintStyles case_table_fragment html_istanbul
        = Returns (''<title>'' @ [CHR 0xC4, CHR 0xB0] @ ''</title''
                    @ defaultPrintStyles @ [CHR 0x0A] @ ''></head>'')
   \<and> InjectDefaultPrintStyles case_table_fragment html_istanbul
        \<noteq> Returns (spec_inject html_istanbul)
   \<and> InjectDefaultPrintStyles case_table_fragment html_stroke = Panics"
proof -
  have a: "case_table_fragment 0x130 = 0x69" "case_table_fragment 0x23A = 0x2C65"
    by (simp_all add: case_table_fragment_def)
  note t = inject_print_styles_misplaced [OF a]
  show ?thesis
    by (intro conjI a t [THEN conjunct1] t [THEN conjunct2, THEN conjunct2, THEN conjunct1]
        t [THEN conjunct2, THEN conjunct2, THEN conjunct2])
qed

section \<open>Exporter\<close>

text \<open>
  The external renderers are parameters: whether headless Chrome can be launched
  (\<open>MustLaunch\<close> panics when it cannot), what Chrome prints for a page file, whether
  \<open>pandoc --version\<close> succeeds, and what a pandoc run does to the file system. Every process
  that a call launches is appended to a log, which is part of the state next to the file
  system.
\<close>

datatype process = Chrome | Pandoc "string list"

record renderers =
  chrome_launch :: bool
  chrome_print :: "filesys \<Rightarrow> string \<Rightarrow> string option"
  pandoc_version :: bool
  pandoc_convert :: "filesys \<Rightarrow> string list \<Rightarrow> string \<Rightarrow> string + filesys"

type_synonym world = "filesys \<times> process list"

definition exportHTML :: "filesys \<Rightarrow> Document \<Rightarrow> string \<Rightarrow> (error + string) \<times> filesys" where
  "exportHTML fs doc outputPath =
     (case os_WriteFile fs outputPath (HTMLContent doc) of
        Inl e \<Rightarrow> (Inl (Wrap ''failed to write HTML file'' (ErrOS e)), fs)
      | Inr fs' \<Rightarrow> (Inr outputPath, fs'))"

text \<open>\<open>utils.OutputFile\<close> of rod: creates the directory of the path, ignoring the result, and
  writes the file.\<close>

definition utils_OutputFile :: "filesys \<Rightarrow> string \<Rightarrow> string \<Rightarrow> os_error option \<times> filesys" where
  "utils_OutputFile fs p content =
     (let fs1 = snd (os_MkdirAll fs (filepath_Dir p)) in
      case os_WriteFile fs1 p content of
        Inl e \<Rightarrow> (Some e, fs1)
      | Inr fs2 \<Rightarrow> (None, fs2))"

definition exportPDFWithChrome ::
  "renderers \<Rightarrow> (int \<Rightarrow> int) \<Rightarrow> Storage \<Rightarrow> world \<Rightarrow> Document \<Rightarrow> string
     \<Rightarrow> error option outcome \<times> world" where
  "exportPDFWithChrome X tbl s w doc outputPath =
     (case InjectDefaultPrintStyles tbl (HTMLContent doc) of
        Panics \<Rightarrow> (Panics, w)
      | Returns htmlWithPrintStyles \<Rightarrow>
          (let tmpHTMLPath = filepath_Join [GetDocumentPath s (ID doc), ''temp_export.html''] in
           case os_WriteFile (fst w) tmpHTMLPath htmlWithPrintStyles of
             Inl e \<Rightarrow> (Returns (Some (Wrap ''failed to write temp HTML file'' (ErrOS e))), w)
           | Inr fs1 \<Rightarrow>
               (if \<not> chrome_launch X
                then (Panics, (snd (os_Remove fs1 tmpHTMLPath), snd w @ [Chrome]))
                else
                  (case chrome_print X fs1 tmpHTMLPath of
                     None \<Rightarrow>
                       (Returns (Some (ErrRenderer ''chrome'')),
                        (snd (os_Remove fs1 tmpHTMLPath), snd w @ [Chrome]))
                   | Some pdfStream \<Rightarrow>
                       (case utils_OutputFile fs1 outputPath pdfStream of
                          (Some e, fs2) \<Rightarrow>
                            (Returns (Some (Wrap ''failed to write PDF file'' (ErrOS e))),
                             (snd (os_Remove fs2 tmpHTMLPath), snd w @ [Chrome]))
                        | (None, fs2) \<Rightarrow>
                            (Returns None,
                             (snd (os_Remove fs2 tmpHTMLPath), snd w @ [Chrome])))))))"

definition checkPandoc :: "renderers \<Rightarrow> process list \<Rightarrow> error option \<times> process list" where
  "checkPandoc X ps =
     (if pandoc_version X then None
      else Some (ErrRenderer ''pandoc not found: please install pandoc to enable PDF/DOCX export''),
      ps @ [Pandoc [''--version'']])"

definition runPandoc :: "renderers \<Rightarrow> world \<Rightarrow> string list \<Rightarrow> string \<Rightarrow> error option \<times> world" where
  "runPandoc X w args workDir =
     (case pandoc_convert X (fst w) args workDir of
        Inl msg \<Rightarrow> (Some (ErrRenderer msg), (fst w, snd w @ [Pandoc args]))
      | Inr fs' \<Rightarrow> (None, (fs', snd w @ [Pandoc args])))"

definition exportPDFWithPandoc ::
  "renderers \<Rightarrow> Storage \<Rightarrow> world \<Rightarrow> Document \<Rightarrow> string \<Rightarrow> (error + string) \<times> world" where
  "exportPDFWithPandoc X s w doc outputPath =
     (case checkPandoc X (snd w) of
        (Some e, ps1) \<Rightarrow> (Inl e, (fst w, ps1))
      | (None, ps1) \<Rightarrow>
          (let tmpHTMLPath = filepath_Join [GetDocumentPath s (ID doc), ''temp_export.html''] in
           case os_WriteFile (fst w) tmpHTMLPath (HTMLContent doc) of
             Inl e \<Rightarrow> (Inl (Wrap ''failed to write temp HTML file'' (ErrOS e)), (fst w, ps1))
           | Inr fs1 \<Rightarrow>
               (case runPandoc X (fs1, ps1)
                       [''-f'', ''html'', ''-o'', outputPath, ''--pdf-engine=xelatex'', tmpHTMLPath]
                       (GetDocumentPath s (ID doc)) of
                  (Some e, w2) \<Rightarrow>
                    (Inl (Wrap ''PDF conversion failed'' e),
                     (snd (os_Remove (fst w2) tmpHTMLPath), snd w2))
                | (None, w2) \<Rightarrow>
                    (Inr outputPath, (snd (os_Remove (fst w2) tmpHTMLPath), snd w2)))))"

definition exportDOCX ::
  "renderers \<Rightarrow> Storage \<Rightarrow> world \<Rightarrow> Document \<Rightarrow> string \<Rightarrow> (error + string) \<times> world" where
  "exportDOCX X s w doc outputPath =
     (case checkPandoc X (snd w) of
        (Some e, ps1) \<Rightarrow> (Inl e, (fst w, ps1))
      | (None, ps1) \<Rightarrow>
          (let tmpHTMLPath = filepath_Join [GetDocumentPath s (ID doc), ''temp_export.html''] in
           case os_WriteFile (fst w) tmpHTMLPath (HTMLContent doc) of
             Inl e \<Rightarrow> (Inl (Wrap ''failed to write temp HTML file'' (ErrOS e)), (fst w, ps1))
           | Inr fs1 \<Rightarrow>
               (case runPandoc X (fs1, ps1) [''-f'', ''html'', ''-o'', outputPath, tmpHTMLPath]
                       (GetDocumentPath s (ID doc)) of
                  (Some e, w2) \<Rightarrow>
                    (Inl (Wrap ''DOCX conversion failed'' e),
                     (snd (os_Remove (fst w2) tmpHTMLPath), snd w2))
                | (None, w2) \<Rightarrow>
                    (Inr outputPath, (snd (os_Remove (fst w2) tmpHTMLPath), snd w2)))))"

definition exportPDF ::
  "renderers \<Rightarrow> (int \<Rightarrow> int) \<Rightarrow> Storage \<Rightarrow> world \<Rightarrow> Document \<Rightarrow> string
     \<Rightarrow> (error + string) outcome \<times> world" where
  "exportPDF X tbl s w doc outputPath =
     (case exportPDFWithChrome X tbl s w doc outputPath of
        (Panics, w1) \<Rightarrow> (Panics, w1)
      | (Returns None, w1) \<Rightarrow> (Returns (Inr outputPath), w1)
      | (Returns (Some e), w1) \<Rightarrow>
          (case exportPDFWithPandoc X s w1 doc outputPath of (r, w2) \<Rightarrow> (Returns r, w2)))"

definition ExportDocument ::
  "renderers \<Rightarrow> (int \<Rightarrow> int) \<Rightarrow> lib \<Rightarrow> Storage \<Rightarrow> world \<Rightarrow> string \<Rightarrow> string \<Rightarrow> string
     \<Rightarrow> (error + string) outcome \<times> world" where
  "ExportDocument X tbl L s w documentID format outputPath =
     (case Service_GetDocument L s (fst w) documentID of
        Inl e \<Rightarrow> (Returns (Inl (Wrap ''failed to get document'' e)), w)
      | Inr doc \<Rightarrow>
          (case (if outputPath = []
                 then (None, fst w)
                 else os_MkdirAll (fst w) (filepath_Dir outputPath)) of
             (Some e, fs1) \<Rightarrow>
               (Returns (Inl (Wrap ''failed to create output directory'' (ErrOS e))), (fs1, snd w))
           | (None, fs1) \<Rightarrow>
               (let outputPath' =
                      (if outputPath = []
                       then filepath_Join [GetDocumentPath s documentID,
                                           documentID @ ''.'' @ format]
                       else outputPath)
                in
                if format = ''html'' then
                  (case exportHTML fs1 doc outputPath' of (r, fs2) \<Rightarrow> (Returns r, (fs2, snd w)))
                else if format = ''pdf'' then exportPDF X tbl s (fs1, snd w) doc outputPath'
                else if format = ''docx'' then
                  (case exportDOCX X s (fs1, snd w) doc outputPath' of (r, w2) \<Rightarrow> (Returns r, w2))
                else (Returns (Inl (ErrUnsupportedFormat format)), (fs1, snd w)))))"

subsection \<open>A worked example\<close>

definition demo_renderers :: renderers where
  "demo_renderers = \<lparr>chrome_launch = True, chrome_print = (\<lambda>fs p. Some ''%PDF''),
     pandoc_version = True, pandoc_convert = (\<lambda>fs args workDir. Inr fs)\<rparr>"

definition demo_fs3 :: filesys where
  "demo_fs3 =
     \<lparr>tree = Dir [(''docs'', Dir [(''my-report-a3f9'',
                 Dir [(''media'', Dir []),
                      (''index.html'', File ''<h1>Hi</h1>''),
                      (''metadata.json'', File ''ccc|uuu|my-report'')])]),
                 (''tmp'', Dir [(''pic.png'', File ''PNG'')]),
                 (''out'', Dir [(''reports'', Dir [])])],
      cwd = [''tmp'']\<rparr>"

lemma ExportDocument_unsupported:
  assumes "format \<noteq> ''html''" and "format \<noteq> ''pdf''" and "format \<noteq> ''docx''"
  shows "ExportDocument X tbl L s (fs, ps) i format out =
     (case Service_GetDocument L s fs i of
        Inl e \<Rightarrow> (Returns (Inl (Wrap ''failed to get document'' e)), (fs, ps))
      | Inr doc \<Rightarrow>
          (if out = [] then (Returns (Inl (ErrUnsupportedFormat format)), (fs, ps))
           else
             (case os_MkdirAll fs (filepath_Dir out) of
                (Some e, fs1) \<Rightarrow>
                  (Returns (Inl (Wrap ''failed to create output directory'' (ErrOS e))), (fs1, ps))
              | (None, fs1) \<Rightarrow> (Returns (Inl (ErrUnsupportedFormat format)), (fs1, ps)))))"
  using assms
  by (simp add: ExportDocument_def Let_def split: sum.split prod.split option.split)

text \<open>
  C7. For a format other than \<open>html\<close>, \<open>pdf\<close> and \<open>docx\<close>, \<open>ExportDocument\<close> fails and launches
  no process; the file system can only have gained directories. The failure is the
  unsupported-format validation error when the document can be read and, for a non-empty
  output path, the directory of the output path can be created (it is created before the
  rejection and stays). When the document cannot be read the failure is the error of reading
  it, and when the directory cannot be created it is the error of creating it.
\<close>

theorem export_unsupported_format:
  assumes "format \<noteq> ''html''" and "format \<noteq> ''pdf''" and "format \<noteq> ''docx''"
  shows "(\<exists>e fs'. ExportDocument X tbl L s (fs, ps) i format out = (Returns (Inl e), (fs', ps))
            \<and> cwd fs' = cwd fs \<and> grows (tree fs) (tree fs'))
    \<and> (\<forall>e. Service_GetDocument L s fs i = Inl e
          \<longrightarrow> ExportDocument X tbl L s (fs, ps) i format out
                = (Returns (Inl (Wrap ''failed to get document'' e)), (fs, ps)))
    \<and> (\<forall>doc. Service_GetDocument L s fs i = Inr doc
          \<longrightarrow> (out = []
                 \<longrightarrow> ExportDocument X tbl L s (fs, ps) i format out
                       = (Returns (Inl (ErrUnsupportedFormat format)), (fs, ps)))
              \<and> (\<forall>fs'. out \<noteq> [] \<and> os_MkdirAll fs (filepath_Dir out) = (None, fs')
                 \<longrightarrow> ExportDocument X tbl L s (fs, ps) i format out
                       = (Returns (Inl (ErrUnsupportedFormat format)), (fs', ps)))
              \<and> (\<forall>e fs'. out \<noteq> [] \<and> os_MkdirAll fs (filepath_Dir out) = (Some e, fs')
                 \<longrightarrow> ExportDocument X tbl L s (fs, ps) i format out
                       = (Returns (Inl (Wrap ''failed to create output directory'' (ErrOS e))),
                          (fs', ps))))
    \<and> classify (ErrUnsupportedFormat format) = ValidationError"
proof -
  note u = ExportDocument_unsupported [OF assms, of X tbl L s fs ps i out]
  have first: "\<exists>e fs'. ExportDocument X tbl L s (fs, ps) i format out = (Returns (Inl e), (fs', ps))
            \<and> cwd fs' = cwd fs \<and> grows (tree fs) (tree fs')"
  proof (cases "Service_GetDocument L s fs i")
    case (Inl e)
    with u show ?thesis by (simp add: grows_refl)
  next
    case (Inr doc)
    show ?thesis
    proof (cases "out = []")
      case True
      with u Inr show ?thesis by (simp add: grows_refl)
    next
      case False
      obtain r fs1 where m: "os_MkdirAll fs (filepath_Dir out) = (r, fs1)"
        by (cases "os_MkdirAll fs (filepath_Dir out)")
      from os_MkdirAll_grows [OF m] have g: "cwd fs1 = cwd fs" "grows (tree fs) (tree fs1)"
        by simp_all
      from u Inr False m g show ?thesis by (cases r) simp_all
    qed
  qed
  have second: "\<forall>e. Service_GetDocument L s fs i = Inl e
          \<longrightarrow> ExportDocument X tbl L s (fs, ps) i format out
                = (Returns (Inl (Wrap ''failed to get document'' e)), (fs, ps))"
    unfolding u by simp
  have third: "\<forall>doc. Service_GetDocument L s fs i = Inr doc
          \<longrightarrow> (out = []
                 \<longrightarrow> ExportDocument X tbl L s (fs, ps) i format out
                       = (Returns (Inl (ErrUnsupportedFormat format)), (fs, ps)))
              \<and> (\<forall>fs'. out \<noteq> [] \<and> os_MkdirAll fs (filepath_Dir out) = (None, fs')
                 \<longrightarrow> ExportDocument X tbl L s (fs, ps) i format out
                       = (Returns (Inl (ErrUnsupportedFormat format)), (fs', ps)))
              \<and> (\<forall>e fs'. out \<noteq> [] \<and> os_MkdirAll fs (filepath_Dir out) = (Some e, fs')
                 \<longrightarrow> ExportDocument X tbl L s (fs, ps) i format out
                       = (Returns (Inl (Wrap ''failed to create output directory'' (ErrOS e))),
                          (fs', ps)))"
    unfolding u by simp
  show ?thesis using first second third by simp
qed

lemma demo_export_facts:
  "Service_GetDocument demo_lib demo_storage demo_fs1 ''my-report-a3f9'' = Inr demo_doc"
  "os_MkdirAll demo_fs1 (filepath_Dir ''/out/reports/r.txt'') = (None, demo_fs3)"
  "os_MkdirAll demo_fs1 (filepath_Dir ''/tmp/pic.png/r.txt'') = (Some ENOTDIR, demo_fs1)"
  "Service_GetDocument demo_lib demo_storage demo_fs ''my-report-a3f9''
     = Inl (Wrap ''failed to get document'' (ErrNotExist ''my-report-a3f9''))"
  by code_simp+

theorem export_unsupported_format_witness:
  "''txt'' \<noteq> ''html'' \<and> ''txt'' \<noteq> ''pdf'' \<and> ''txt'' \<noteq> ''docx''
   \<and> ExportDocument demo_renderers case_table_fragment demo_lib demo_storage (demo_fs, [])
        ''my-report-a3f9'' ''txt'' ''/out/reports/r.txt''
      = (Returns (Inl (Wrap ''failed to get document''
           (Wrap ''failed to get document'' (ErrNotExist ''my-report-a3f9'')))), (demo_fs, []))
   \<and> ExportDocument demo_renderers case_table_fragment demo_lib demo_storage (demo_fs1, [])
        ''my-report-a3f9'' ''txt'' []
      = (Returns (Inl (ErrUnsupportedFormat ''txt'')), (demo_fs1, []))
   \<and> ExportDocument demo_renderers case_table_fragment demo_lib demo_storage (demo_fs1, [])
        ''my-report-a3f9'' ''txt'' ''/out/reports/r.txt''
      = (Returns (Inl (ErrUnsupportedFormat ''txt'')), (demo_fs3, []))
   \<and> ExportDocument demo_renderers case_table_fragment demo_lib demo_storage (demo_fs1, [])
        ''my-report-a3f9'' ''txt'' ''/tmp/pic.png/r.txt''
      = (Returns (Inl (Wrap ''failed to create output directory'' (ErrOS ENOTDIR))),
         (demo_fs1, []))
   \<and> classify (ErrUnsupportedFormat ''txt'') = ValidationError"
proof -
  have f: "''txt'' \<noteq> ''html''" "''txt'' \<noteq> ''pdf''" "''txt'' \<noteq> ''docx''" by simp_all
  have n: "''/out/reports/r.txt'' \<noteq> []" "''/tmp/pic.png/r.txt'' \<noteq> []" by simp_all
  note a = export_unsupported_format [OF f, of demo_renderers case_table_fragment demo_lib
      demo_storage demo_fs "[]" "''my-report-a3f9''" "''/out/reports/r.txt''",
      THEN conjunct2, THEN conjunct1, rule_format, OF demo_export_facts(4)]
  note b = export_unsupported_format [OF f, of demo_renderers case_table_fragment demo_lib
      demo_storage demo_fs1 "[]" "''my-report-a3f9''" "[]",
      THEN conjunct2, THEN conjunct2, THEN conjunct1, rule_format, OF demo_export_facts(1),
      THEN conjunct1, rule_format, OF refl]
  note c = export_unsupported_format [OF f, of demo_renderers case_table_fragment demo_lib
      demo_storage demo_fs1 "[]" "''my-report-a3f9''" "''/out/reports/r.txt''",
      THEN conjunct2, THEN conjunct2, THEN conjunct1, rule_format, OF demo_export_facts(1),
      THEN conjunct2, THEN conjunct1, rule_format, OF conjI [OF n(1) demo_export_facts(2)]]
  note d = export_unsupported_format [OF f, of demo_renderers case_table_fragment demo_lib
      demo_storage demo_fs1 "[]" "''my-report-a3f9''" "''/tmp/pic.png/r.txt''",
      THEN conjunct2, THEN conjunct2, THEN conjunct1, rule_format, OF demo_export_facts(1),
      THEN conjunct2, THEN conjunct2, rule_format, OF conjI [OF n(2) demo_export_facts(3)]]
  have e: "classify (ErrUnsupportedFormat ''txt'') = ValidationError" by simp
  show ?thesis by (intro conjI f a b c d e)
qed

text \<open>The rejection is not the first thing that happens: a rejected call has created the
  directory of the output path, and for a document that does not exist the failure is the
  not-found error of reading it.\<close>

theorem export_rejection_after_io:
  "ExportDocument demo_renderers case_table_fragment demo_lib demo_storage (demo_fs1, [])
        ''my-report-a3f9'' ''txt'' ''/out/reports/r.txt''
      = (Returns (Inl (ErrUnsupportedFormat ''txt'')), (demo_fs3, []))
   \<and> stat (tree demo_fs1) [''out'', ''reports''] = None
   \<and> stat (tree demo_fs3) [''out'', ''reports''] = Some IsDir
   \<and> ExportDocument demo_renderers case_table_fragment demo_lib demo_storage (demo_fs, [])
        ''my-report-a3f9'' ''txt'' []
      = (Returns (Inl (Wrap ''failed to get document''
           (Wrap ''failed to get document'' (ErrNotExist ''my-report-a3f9'')))), (demo_fs, []))
   \<and> classify (Wrap ''failed to get document''
           (Wrap ''failed to get document'' (ErrNotExist ''my-report-a3f9''))) = NotFoundError"
  by code_simp

end
